theory Spec2Isabelle
  imports Main "HOL-Library.Multiset"
begin

section \<open>Strings\<close>

text \<open>
  A JavaScript string is a sequence of UTF-16 code units. A code unit is modelled by its
  number, so that the byte order mark U+FEFF and the Unicode white space that \<open>\s\<close> and
  \<open>trim\<close> recognise can be written down; \<open>str\<close> turns an ASCII literal into such a string.
\<close>

type_synonym jsstring = "nat list"

definition str :: "string \<Rightarrow> jsstring" where
  "str s = map of_char s"

definition slash :: nat where
  "slash = 47"

definition backslash :: nat where
  "backslash = 92"

definition colon :: nat where
  "colon = 58"

text \<open>The character class \<open>[\\/]\<close>.\<close>

definition isSep :: "nat \<Rightarrow> bool" where
  "isSep c = (c = slash \<or> c = backslash)"

text \<open>Line terminators: the code units that \<open>.\<close> does not match.\<close>

definition lineTerminator :: "nat \<Rightarrow> bool" where
  "lineTerminator c = (c = 10 \<or> c = 13 \<or> c = 8232 \<or> c = 8233)"

text \<open>
  The class \<open>\s\<close>, which is also what \<open>String.prototype.trim\<close> strips: the white space
  code units (tab, vertical tab, form feed, space, no-break space, U+FEFF and the space
  separators of Unicode) and the line terminators.
\<close>

definition isSpace :: "nat \<Rightarrow> bool" where
  "isSpace c = (c = 9 \<or> c = 11 \<or> c = 12 \<or> c = 32 \<or> c = 160 \<or> c = 5760
     \<or> (8192 \<le> c \<and> c \<le> 8202) \<or> c = 8239 \<or> c = 8287 \<or> c = 12288 \<or> c = 65279
     \<or> lineTerminator c)"

text \<open>The class \<open>[a-zA-Z]\<close>.\<close>

definition isLetter :: "nat \<Rightarrow> bool" where
  "isLetter c = ((65 \<le> c \<and> c \<le> 90) \<or> (97 \<le> c \<and> c \<le> 122))"

text \<open>The class \<open>\w\<close>, that is \<open>[A-Za-z0-9_]\<close>.\<close>

definition isWordChar :: "nat \<Rightarrow> bool" where
  "isWordChar c = (isLetter c \<or> (48 \<le> c \<and> c \<le> 57) \<or> c = 95)"

definition trim :: "jsstring \<Rightarrow> jsstring" where
  "trim s = rev (dropWhile isSpace (rev (dropWhile isSpace s)))"

section \<open>vpath: separators and roots\<close>

text \<open>
  \<open>path.replace(/\s*[\\/]\s*/g, "/")\<close>. At each position the greedy \<open>\s*\<close> takes the
  whole run of white space; the match succeeds there iff a separator follows that run
  (giving white space back cannot help, the next code unit would be white space), and
  then takes the white space after the separator too. Where there is no match the code
  unit is copied and the search goes on one position later.
\<close>

function replaceSeparators :: "jsstring \<Rightarrow> jsstring" where
  "replaceSeparators [] = []"
| "replaceSeparators (c # cs) =
     (case dropWhile isSpace (c # cs) of
        [] \<Rightarrow> c # replaceSeparators cs
      | d # ds \<Rightarrow>
          if isSep d then slash # replaceSeparators (dropWhile isSpace ds)
          else c # replaceSeparators cs)"
  by pat_completeness auto
termination
proof (relation "measure length")
  fix c :: nat and cs d ds
  assume h: "dropWhile isSpace (c # cs) = d # ds"
  have "length (dropWhile isSpace ds) \<le> length ds"
    by (rule length_dropWhile_le)
  moreover have "length (d # ds) \<le> length (c # cs)"
    unfolding h [symmetric] by (rule length_dropWhile_le)
  ultimately show "(dropWhile isSpace ds, c # cs) \<in> measure length"
    by simp
qed simp_all

declare replaceSeparators.simps [simp del]

definition normalizeSlashes :: "jsstring \<Rightarrow> jsstring" where
  "normalizeSlashes path = trim (replaceSeparators path)"

text \<open>
  \<open>.*?[\\/]\<close> at the start of a string: the lazy \<open>.*?\<close> grows one code unit at a time,
  never over a line terminator, and stops at the first separator. The result is the
  length of the match.
\<close>

fun lazyToSep :: "jsstring \<Rightarrow> nat option" where
  "lazyToSep [] = None"
| "lazyToSep (c # cs) =
     (if isSep c then Some 1
      else if lineTerminator c then None
      else map_option Suc (lazyToSep cs))"

text \<open>First alternative of \<open>rootRegExp\<close>: \<open>^[\\/]([\\/](.*?[\\/](.*?[\\/])?)?)?\<close>.\<close>

definition uncRoot :: "jsstring \<Rightarrow> nat option" where
  "uncRoot s =
     (case s of
        [] \<Rightarrow> None
      | c # cs \<Rightarrow>
          if \<not> isSep c then None
          else (case cs of
                  [] \<Rightarrow> Some 1
                | d # ds \<Rightarrow>
                    if \<not> isSep d then Some 1
                    else (case lazyToSep ds of
                            None \<Rightarrow> Some 2
                          | Some n \<Rightarrow>
                              (case lazyToSep (drop n ds) of
                                 None \<Rightarrow> Some (2 + n)
                               | Some m \<Rightarrow> Some (2 + n + m)))))"

text \<open>Second alternative: \<open>^[a-zA-Z]:[\\/]?\<close>.\<close>

definition driveRoot :: "jsstring \<Rightarrow> nat option" where
  "driveRoot s =
     (case s of
        c # d # rest \<Rightarrow>
          if isLetter c \<and> d = colon
          then (case rest of
                  [] \<Rightarrow> Some 2
                | e # _ \<Rightarrow> if isSep e then Some 3 else Some 2)
          else None
      | _ \<Rightarrow> None)"

text \<open>
  Third alternative: \<open>^\w+:\/{2}[^\\/]*[\\/]?\<close>. The greedy \<open>\w+\<close> takes the whole run of
  word characters (a shorter run would be followed by a word character, not by the colon),
  and \<open>[^\\/]*\<close> runs to the next separator or to the end.
\<close>

definition urlRoot :: "jsstring \<Rightarrow> nat option" where
  "urlRoot s =
     (let w = takeWhile isWordChar s; r = dropWhile isWordChar s in
      if w = [] then None
      else (case r of
              c # s1 # s2 # rest \<Rightarrow>
                if c = colon \<and> s1 = slash \<and> s2 = slash
                then Some (length w + 3 + length (takeWhile (\<lambda>x. \<not> isSep x) rest)
                           + (if dropWhile (\<lambda>x. \<not> isSep x) rest = [] then 0 else 1))
                else None
            | _ \<Rightarrow> None))"

text \<open>\<open>rootRegExp.exec(path)\<close>: the alternatives in their order; the length of \<open>match[0]\<close>.\<close>

definition rootRegExp :: "jsstring \<Rightarrow> nat option" where
  "rootRegExp path =
     (case uncRoot path of
        Some n \<Rightarrow> Some n
      | None \<Rightarrow> (case driveRoot path of Some n \<Rightarrow> Some n | None \<Rightarrow> urlRoot path))"

definition getRootLength :: "jsstring \<Rightarrow> nat" where
  "getRootLength path = (case rootRegExp path of Some n \<Rightarrow> n | None \<Rightarrow> 0)"

definition isAbsolute :: "jsstring \<Rightarrow> bool" where
  "isAbsolute path = (rootRegExp path \<noteq> None)"

text \<open>\<open>/[\\/]$/.test(path)\<close>.\<close>

definition hasTrailingSeperator :: "jsstring \<Rightarrow> bool" where
  "hasTrailingSeperator path = (path \<noteq> [] \<and> isSep (last path))"

section \<open>vpath: components\<close>

text \<open>
  \<open>s.split(/\/+/g)\<close>: the pieces between maximal runs of \<open>/\<close>; the empty string gives one
  empty piece, a leading or trailing run gives an empty first or last piece.
\<close>

function splitSlashes :: "jsstring \<Rightarrow> jsstring list" where
  "splitSlashes s =
     (case dropWhile (\<lambda>c. c \<noteq> slash) s of
        [] \<Rightarrow> [s]
      | _ # r \<Rightarrow> takeWhile (\<lambda>c. c \<noteq> slash) s # splitSlashes (dropWhile (\<lambda>c. c = slash) r))"
  by pat_completeness auto
termination
proof (relation "measure length")
  fix s :: jsstring and x r
  assume h: "dropWhile (\<lambda>c. c \<noteq> slash) s = x # r"
  have "length (dropWhile (\<lambda>c. c = slash) r) \<le> length r"
    by (rule length_dropWhile_le)
  moreover have "length (x # r) \<le> length s"
    unfolding h [symmetric] by (rule length_dropWhile_le)
  ultimately show "(dropWhile (\<lambda>c. c = slash) r, s) \<in> measure length"
    by simp
qed simp

declare splitSlashes.simps [simp del]

text \<open>\<open>Array.prototype.join("/")\<close>.\<close>

fun joinSlash :: "jsstring list \<Rightarrow> jsstring" where
  "joinSlash [] = []"
| "joinSlash [x] = x"
| "joinSlash (x # y # ys) = x @ slash # joinSlash (y # ys)"

definition parse :: "jsstring \<Rightarrow> jsstring list" where
  "parse path =
     (let rootLength = getRootLength path;
          root = take rootLength path;
          rest = splitSlashes (drop rootLength path);
          rest = (if rest \<noteq> [] \<and> last rest = [] then butlast rest else rest)
      in root # map trim rest)"

definition format :: "jsstring list \<Rightarrow> jsstring" where
  "format components =
     (case components of [] \<Rightarrow> [] | root # rest \<Rightarrow> root @ joinSlash rest)"

text \<open>
  The loop of \<open>reduce\<close>: \<open>normalized\<close> is the array being built, the second argument the
  components from index \<open>i\<close> on.
\<close>

fun reduceLoop :: "jsstring list \<Rightarrow> jsstring list \<Rightarrow> jsstring list" where
  "reduceLoop normalized [] = normalized"
| "reduceLoop normalized (component # rest) =
     (if component = str ''.'' then reduceLoop normalized rest
      else if component = str ''..'' \<and> length normalized > 0 \<and> last normalized \<noteq> str ''..''
      then reduceLoop (butlast normalized) rest
      else reduceLoop (normalized @ [component]) rest)"

text \<open>
  \<open>reduce\<close> is private to the module and only called on a result of \<open>parse\<close>, which always
  holds the root at index 0; the empty list is given no meaning by the source.
\<close>

fun reduce :: "jsstring list \<Rightarrow> jsstring list" where
  "reduce [] = []"
| "reduce (root # rest) = reduceLoop [root] rest"

definition normalize_path :: "jsstring \<Rightarrow> jsstring" where
  "normalize_path path =
     (let components = reduce (parse (normalizeSlashes path)) in
      if length components > 1 \<and> hasTrailingSeperator path
      then format components @ [slash]
      else format components)"

definition combineStep :: "jsstring \<Rightarrow> jsstring \<Rightarrow> jsstring" where
  "combineStep name path =
     (let name = normalizeSlashes name in
      if length name = 0 then path
      else if length path = 0 \<or> isAbsolute name then name
      else if hasTrailingSeperator path then path @ name
      else path @ slash # name)"

definition combine :: "jsstring \<Rightarrow> jsstring list \<Rightarrow> jsstring" where
  "combine path paths = fold combineStep paths (normalizeSlashes path)"

definition resolve :: "jsstring \<Rightarrow> jsstring list \<Rightarrow> jsstring" where
  "resolve path paths = normalize_path (combine path paths)"

section \<open>utils: comparing values and strings\<close>

text \<open>
  \<open>compareValues\<close> on values that \<open><\<close> orders linearly (numbers, strings); \<open>None\<close> stands
  for \<open>undefined\<close> and \<open>null\<close>.
\<close>

definition compareValues :: "'a::linorder option \<Rightarrow> 'a option \<Rightarrow> int" where
  "compareValues a b =
     (if a = b then 0
      else (case a of
              None \<Rightarrow> - 1
            | Some x \<Rightarrow>
                (case b of
                   None \<Rightarrow> 1
                 | Some y \<Rightarrow> if x < y then - 1 else if x > y then 1 else 0)))"

text \<open>\<open>a < b\<close> on strings: the lexicographic order of the code units.\<close>

fun strLess :: "jsstring \<Rightarrow> jsstring \<Rightarrow> bool" where
  "strLess [] [] = False"
| "strLess [] (y # ys) = True"
| "strLess (x # xs) [] = False"
| "strLess (x # xs) (y # ys) = (x < y \<or> (x = y \<and> strLess xs ys))"

text \<open>
  What the module takes from its environment: the two \<open>Intl.Collator\<close> objects, each
  \<open>undefined\<close> (\<open>None\<close>) where \<open>Intl\<close> is missing and otherwise given by its \<open>compare\<close>
  function, and \<open>String.prototype.toUpperCase\<close>.
\<close>

record environment =
  caseInsensitiveCollator :: "(jsstring \<Rightarrow> jsstring \<Rightarrow> int) option"
  caseSensitiveCollator :: "(jsstring \<Rightarrow> jsstring \<Rightarrow> int) option"
  toUpperCase :: "jsstring \<Rightarrow> jsstring"

definition compareStrings ::
    "environment \<Rightarrow> jsstring option \<Rightarrow> jsstring option \<Rightarrow> bool \<Rightarrow> int" where
  "compareStrings env a b ignoreCase =
     (if a = b then 0
      else (case a of
              None \<Rightarrow> - 1
            | Some x \<Rightarrow>
                (case b of
                   None \<Rightarrow> 1
                 | Some y \<Rightarrow>
                     (case (if ignoreCase then caseInsensitiveCollator env
                            else caseSensitiveCollator env) of
                        Some collator \<Rightarrow> collator x y
                      | None \<Rightarrow>
                          (let x' = (if ignoreCase then toUpperCase env x else x);
                               y' = (if ignoreCase then toUpperCase env y else y)
                           in if strLess x' y' then - 1 else if strLess y' x' then 1 else 0)))))"

text \<open>
  An environment without \<open>Intl\<close>, in which \<open>compareStrings\<close> takes its fallback branch;
  its \<open>toUpperCase\<close> maps the ASCII letters only.
\<close>

definition asciiUpper :: "jsstring \<Rightarrow> jsstring" where
  "asciiUpper s = map (\<lambda>c. if 97 \<le> c \<and> c \<le> 122 then c - 32 else c) s"

definition noIntl :: environment where
  "noIntl = \<lparr>caseInsensitiveCollator = None, caseSensitiveCollator = None,
             toUpperCase = asciiUpper\<rparr>"

section \<open>vpath: relative\<close>

datatype error = Error string

text \<open>
  The first loop of \<open>relative\<close>: from index \<open>start\<close> on, the first index at which the two
  component arrays end or compare different.
\<close>

function commonStart ::
    "environment \<Rightarrow> bool \<Rightarrow> jsstring list \<Rightarrow> jsstring list \<Rightarrow> nat \<Rightarrow> nat" where
  "commonStart env ignoreCase fromComponents toComponents start =
     (if start < length fromComponents \<and> start < length toComponents
      then (if compareStrings env (Some (fromComponents ! start))
                  (Some (toComponents ! start)) ignoreCase \<noteq> 0
            then start
            else commonStart env ignoreCase fromComponents toComponents (start + 1))
      else start)"
  by pat_completeness auto
termination
  by (relation "measure (\<lambda>(env, ignoreCase, fromComponents, toComponents, start).
        length fromComponents - start)") auto

declare commonStart.simps [simp del]

definition relative :: "environment \<Rightarrow> jsstring \<Rightarrow> jsstring \<Rightarrow> bool \<Rightarrow> error + jsstring" where
  "relative env from to ignoreCase =
     (if \<not> isAbsolute from then Inl (Error ''Path not absolute: from'')
      else if \<not> isAbsolute to then Inl (Error ''Path not absolute: to'')
      else
        (let fromComponents = reduce (parse from);
             toComponents = reduce (parse to);
             start = commonStart env ignoreCase fromComponents toComponents 0
         in if start = 0 then Inr (format toComponents)
            else
              (let components = drop start toComponents;
                   components = replicate (length fromComponents - start) (str ''..'') @ components
               in Inr (format ([] # components)))))"

text \<open>
  \<open>resolve(from, relative(from, to, ignoreCase))\<close>: an exception thrown by \<open>relative\<close>
  passes through.
\<close>

definition resolveRelative ::
    "environment \<Rightarrow> jsstring \<Rightarrow> jsstring \<Rightarrow> bool \<Rightarrow> error + jsstring" where
  "resolveRelative env from to ignoreCase =
     (case relative env from to ignoreCase of
        Inl e \<Rightarrow> Inl e
      | Inr r \<Rightarrow> Inr (resolve from [r]))"

section \<open>utils: stableSort\<close>

text \<open>
  \<open>Array.prototype.sort(comparefn)\<close> is a built-in of the language, modelled here by an
  insertion sort: \<open>x\<close> is put before the first \<open>y\<close> with \<open>comparefn(x, y) \<le> 0\<close>.
\<close>

fun insertBy :: "('a \<Rightarrow> 'a \<Rightarrow> int) \<Rightarrow> 'a \<Rightarrow> 'a list \<Rightarrow> 'a list" where
  "insertBy comparefn x [] = [x]"
| "insertBy comparefn x (y # ys) =
     (if comparefn x y \<le> 0 then x # y # ys else y # insertBy comparefn x ys)"

definition arraySort :: "('a \<Rightarrow> 'a \<Rightarrow> int) \<Rightarrow> 'a list \<Rightarrow> 'a list" where
  "arraySort comparefn xs = foldr (insertBy comparefn) xs []"

text \<open>
  The function given to \<open>sort\<close>:
  \<open>(x, y) => comparer(array[x], array[y]) || compareValues(x, y)\<close>.
\<close>

definition indexComparer :: "'a list \<Rightarrow> ('a \<Rightarrow> 'a \<Rightarrow> int) \<Rightarrow> nat \<Rightarrow> nat \<Rightarrow> int" where
  "indexComparer array comparer x y =
     (let c = comparer (array ! x) (array ! y) in
      if c \<noteq> 0 then c else compareValues (Some x) (Some y))"

text \<open>The sorted array of indices, and the array \<open>stableSort\<close> returns.\<close>

definition sortedIndices :: "'a list \<Rightarrow> ('a \<Rightarrow> 'a \<Rightarrow> int) \<Rightarrow> nat list" where
  "sortedIndices array comparer =
     arraySort (indexComparer array comparer) (map fst (enumerate 0 array))"

definition stableSortList :: "'a list \<Rightarrow> ('a \<Rightarrow> 'a \<Rightarrow> int) \<Rightarrow> 'a list" where
  "stableSortList array comparer = map (\<lambda>i. array ! i) (sortedIndices array comparer)"

text \<open>
  Arrays are objects: a heap holds them, a reference is a position in the heap. An array
  of elements and the array of indices that \<open>stableSort\<close> builds are kept apart.
\<close>

datatype 'a jsarray = Elements "'a list" | Indices "nat list"

type_synonym 'a heap = "'a jsarray list"

definition alloc :: "'a heap \<Rightarrow> 'a jsarray \<Rightarrow> nat \<times> 'a heap" where
  "alloc h a = (length h, h @ [a])"

definition elementsAt :: "'a heap \<Rightarrow> nat \<Rightarrow> 'a list" where
  "elementsAt h r = (case h ! r of Elements xs \<Rightarrow> xs | Indices _ \<Rightarrow> [])"

definition indicesAt :: "'a heap \<Rightarrow> nat \<Rightarrow> nat list" where
  "indicesAt h r = (case h ! r of Indices xs \<Rightarrow> xs | Elements _ \<Rightarrow> [])"

text \<open>
  \<open>stableSort(array, comparer)\<close> on the heap: \<open>map\<close> allocates the array of indices, \<open>sort\<close>
  sorts that array in place, reading \<open>array\<close> through the heap, and the second \<open>map\<close>
  allocates the result. The comparer is a function of the two values. There is no result
  (\<open>None\<close>) where \<open>array\<close> is not a reference to an array of elements, which the parameter's
  type excludes.
\<close>

definition stableSort ::
    "'a heap \<Rightarrow> nat \<Rightarrow> ('a \<Rightarrow> 'a \<Rightarrow> int) \<Rightarrow> (nat \<times> 'a heap) option" where
  "stableSort h array comparer =
     (if array < length h \<and> (\<exists>xs. h ! array = Elements xs)
      then
        (let (indices, h1) = alloc h (Indices (map fst (enumerate 0 (elementsAt h array))));
             h2 = h1[indices := Indices (arraySort (indexComparer (elementsAt h1 array) comparer)
                                            (indicesAt h1 indices))];
             (result, h3) = alloc h2 (Elements (map (\<lambda>i. elementsAt h2 array ! i)
                                                    (indicesAt h2 indices)))
         in Some (result, h3))
      else None)"

text \<open>
  A consistent comparator on a set of values, as \<open>Array.prototype.sort\<close> asks of its
  argument: comparing equal is reflexive, symmetric and transitive, \<open>a < b\<close> is the
  converse of \<open>b > a\<close>, and \<open><\<close> is transitive also through equal values.
\<close>

definition consistentComparator :: "'a set \<Rightarrow> ('a \<Rightarrow> 'a \<Rightarrow> int) \<Rightarrow> bool" where
  "consistentComparator A c =
     ((\<forall>a\<in>A. c a a = 0)
      \<and> (\<forall>a\<in>A. \<forall>b\<in>A. (c a b < 0) = (c b a > 0))
      \<and> (\<forall>a\<in>A. \<forall>b\<in>A. \<forall>d\<in>A. c a b \<le> 0 \<and> c b d \<le> 0 \<longrightarrow> c a d \<le> 0)
      \<and> (\<forall>a\<in>A. \<forall>b\<in>A. \<forall>d\<in>A. c a b \<le> 0 \<and> c b d < 0 \<longrightarrow> c a d < 0)
      \<and> (\<forall>a\<in>A. \<forall>b\<in>A. \<forall>d\<in>A. c a b < 0 \<and> c b d \<le> 0 \<longrightarrow> c a d < 0))"

text \<open>
  A comparer that is no consistent comparator: on \<open>0\<close>, \<open>1\<close>, \<open>2\<close> it puts \<open>0\<close> before \<open>1\<close>,
  \<open>1\<close> before \<open>2\<close> and \<open>2\<close> before \<open>0\<close>.
\<close>

definition cyclicComparer :: "nat \<Rightarrow> nat \<Rightarrow> int" where
  "cyclicComparer a b = (if a = b then 0 else if b = (a + 1) mod 3 then - 1 else 1)"

section \<open>documents: TextDocument\<close>

datatype TextDocument = TextDocument
  (doc_meta: "(jsstring \<times> jsstring) list")
  (doc_parent: "TextDocument option")
  (doc_file: jsstring)
  (doc_text: jsstring)
  (doc_pos: int)
  (doc_end: int)

record TextFragment =
  frag_parent :: TextDocument
  frag_pos :: int
  frag_end :: int

text \<open>\<open>String.prototype.substring(start, end)\<close>: both ends clamped, swapped if out of order.\<close>

definition substring :: "jsstring \<Rightarrow> int \<Rightarrow> int \<Rightarrow> jsstring" where
  "substring s start finish =
     (let len = int (length s);
          a = min (max start 0) len;
          b = min (max finish 0) len
      in take (nat (max a b - min a b)) (drop (nat (min a b)) s))"

text \<open>The constructor of \<open>TextDocument\<close>; the content is a string or a fragment.\<close>

definition newTextDocument ::
    "jsstring \<Rightarrow> jsstring + TextFragment \<Rightarrow> (jsstring \<times> jsstring) list option \<Rightarrow> TextDocument" where
  "newTextDocument file content meta =
     (let m = (case meta of Some m \<Rightarrow> m | None \<Rightarrow> []) in
      case content of
        Inl text \<Rightarrow> TextDocument m None file text 0 (int (length text))
      | Inr fragment \<Rightarrow>
          (let parent = frag_parent fragment;
               pos = doc_pos parent + frag_pos fragment;
               finish = doc_pos parent + frag_end fragment
           in TextDocument m (Some parent) file (substring (doc_text parent) pos finish)
                pos finish))"

section \<open>compiler: CompilerHost.writeFile\<close>

text \<open>
  Modelled from the spec: the class \<open>VirtualFileSystem\<close> (\<open>vfs.ts\<close>) is not among the
  sources. The spec gives it a case-sensitivity flag that is immutable for its lifetime
  and an entry tree that its operations change, and defines \<open>sameName(a, b)\<close> as name
  equality under the active case rule, where case folding normalises the letter case
  before the comparison in the insensitive mode. The tree is left abstract (\<open>'fs\<close>), as are
  the entries (\<open>'e\<close>) and the folding function.
\<close>

record 'fs VirtualFileSystem =
  useCaseSensitiveFileNames :: bool
  tree :: 'fs

definition sameName ::
    "(jsstring \<Rightarrow> jsstring) \<Rightarrow> 'fs VirtualFileSystem \<Rightarrow> jsstring \<Rightarrow> jsstring \<Rightarrow> bool" where
  "sameName caseFold vfs a b =
     (if useCaseSensitiveFileNames vfs then a = b else caseFold a = caseFold b)"

text \<open>
  The operations of the file system and of its entries that \<open>writeFile\<close> calls, taken as
  parameters: \<open>addFile\<close> returns the entry or \<open>undefined\<close> (\<open>None\<close>), or throws, and changes
  the tree; \<open>setContent\<close> changes the tree; \<open>entryPath\<close> reads \<open>entry.path\<close>.
\<close>

record ('fs, 'e) vfsOperations =
  caseFold :: "jsstring \<Rightarrow> jsstring"
  addFile :: "'fs \<Rightarrow> jsstring \<Rightarrow> error + ('e option \<times> 'fs)"
  setContent :: "'e \<Rightarrow> jsstring \<Rightarrow> 'fs \<Rightarrow> 'fs"
  entryPath :: "'fs \<Rightarrow> 'e \<Rightarrow> jsstring"

record 'fs CompilerHost =
  vfs :: "'fs VirtualFileSystem"
  outputs :: "TextDocument list"

text \<open>\<open>Array.prototype.findIndex\<close>: the first index whose element satisfies \<open>p\<close>, or \<open>-1\<close>.\<close>

fun findIndex :: "('a \<Rightarrow> bool) \<Rightarrow> 'a list \<Rightarrow> int" where
  "findIndex p [] = - 1"
| "findIndex p (x # xs) =
     (if p x then 0 else (let i = findIndex p xs in if i < 0 then - 1 else i + 1))"

definition writeFile ::
    "('fs, 'e) vfsOperations \<Rightarrow> 'fs CompilerHost \<Rightarrow> jsstring \<Rightarrow> jsstring \<Rightarrow> bool
      \<Rightarrow> error + 'fs CompilerHost" where
  "writeFile ops host fileName content writeByteOrderMark =
     (let content = (if writeByteOrderMark then 65279 # content else content) in
      case addFile ops (tree (vfs host)) fileName of
        Inl e \<Rightarrow> Inl e
      | Inr (None, fs1) \<Rightarrow> Inr (host\<lparr>vfs := (vfs host)\<lparr>tree := fs1\<rparr>\<rparr>)
      | Inr (Some entry, fs1) \<Rightarrow>
          (let fs2 = setContent ops entry content fs1;
               vfs2 = (vfs host)\<lparr>tree := fs2\<rparr>;
               document = newTextDocument (entryPath ops fs2 entry) (Inl content) None;
               index = findIndex (\<lambda>doc. sameName (caseFold ops) vfs2 (doc_file document)
                                          (doc_file doc)) (outputs host)
           in if index < 0
              then Inr (host\<lparr>vfs := vfs2, outputs := outputs host @ [document]\<rparr>)
              else Inr (host\<lparr>vfs := vfs2,
                              outputs := (outputs host)[nat index := document]\<rparr>)))"

text \<open>A sequence of calls, each with its three arguments; a call that throws ends it.\<close>

fun writeFiles ::
    "('fs, 'e) vfsOperations \<Rightarrow> 'fs CompilerHost \<Rightarrow> (jsstring \<times> jsstring \<times> bool) list
      \<Rightarrow> error + 'fs CompilerHost" where
  "writeFiles ops host [] = Inr host"
| "writeFiles ops host ((fileName, content, writeByteOrderMark) # calls) =
     (case writeFile ops host fileName content writeByteOrderMark of
        Inl e \<Rightarrow> Inl e
      | Inr host' \<Rightarrow> writeFiles ops host' calls)"

text \<open>No two documents of the list have the same file name, in either order of comparison.\<close>

fun uniqueNames :: "(jsstring \<Rightarrow> jsstring \<Rightarrow> bool) \<Rightarrow> TextDocument list \<Rightarrow> bool" where
  "uniqueNames same [] = True"
| "uniqueNames same (d # ds) =
     ((\<forall>e\<in>set ds. \<not> same (doc_file d) (doc_file e) \<and> \<not> same (doc_file e) (doc_file d))
      \<and> uniqueNames same ds)"

text \<open>The document that a call of \<open>writeFile\<close> builds for the entry \<open>addFile\<close> returned.\<close>

definition writtenDocument ::
    "('fs, 'e) vfsOperations \<Rightarrow> 'fs \<Rightarrow> 'e \<Rightarrow> jsstring \<Rightarrow> bool \<Rightarrow> TextDocument" where
  "writtenDocument ops fs1 entry content writeByteOrderMark =
     (let content = (if writeByteOrderMark then 65279 # content else content) in
      newTextDocument (entryPath ops (setContent ops entry content fs1) entry) (Inl content) None)"

text \<open>
  A small file system to run \<open>writeFile\<close> on: the tree is the list of the files written,
  an entry is its path, every file can be added, and names are folded to upper case.
\<close>

definition listOperations :: "((jsstring \<times> jsstring) list, jsstring) vfsOperations" where
  "listOperations =
     \<lparr>caseFold = asciiUpper,
      addFile = (\<lambda>fs name. Inr (Some name, fs)),
      setContent = (\<lambda>entry content fs. (entry, content) # fs),
      entryPath = (\<lambda>fs entry. entry)\<rparr>"

definition freshHost :: "(jsstring \<times> jsstring) list CompilerHost" where
  "freshHost = \<lparr>vfs = \<lparr>useCaseSensitiveFileNames = False, tree = []\<rparr>, outputs = []\<rparr>"

section \<open>Properties of path strings\<close>

text \<open>The white space at the start of the string, if any, is followed by a separator.\<close>

definition sepAhead :: "jsstring \<Rightarrow> bool" where
  "sepAhead s = (case dropWhile isSpace s of [] \<Rightarrow> False | d # _ \<Rightarrow> isSep d)"

text \<open>Some \<open>/\<close> of the string has a white space code unit right before or right after it.\<close>

fun spaceBySlash :: "jsstring \<Rightarrow> bool" where
  "spaceBySlash (a # b # cs) =
     ((a = slash \<and> isSpace b) \<or> (isSpace a \<and> b = slash) \<or> spaceBySlash (b # cs))"
| "spaceBySlash cs = False"

text \<open>The string neither starts nor ends with white space.\<close>

definition trimmed :: "jsstring \<Rightarrow> bool" where
  "trimmed s = (s = [] \<or> (\<not> isSpace (hd s) \<and> \<not> isSpace (last s)))"

text \<open>The string has two \<open>/\<close> in a row.\<close>

fun doubleSlash :: "jsstring \<Rightarrow> bool" where
  "doubleSlash (a # b # cs) = ((a = slash \<and> b = slash) \<or> doubleSlash (b # cs))"
| "doubleSlash cs = False"

text \<open>
  A name: not empty, without separator, without white space at its ends. A plain name is
  moreover neither \<open>.\<close> nor \<open>..\<close> and does not start like a drive root (a letter and a
  colon).
\<close>

definition isName :: "jsstring \<Rightarrow> bool" where
  "isName n = (n \<noteq> [] \<and> \<not> (\<exists>c\<in>set n. isSep c) \<and> trimmed n)"

definition plainName :: "jsstring \<Rightarrow> bool" where
  "plainName n = (isName n \<and> n \<noteq> str ''.'' \<and> n \<noteq> str ''..'' \<and> driveRoot n = None)"

text \<open>
  A root that ends in a separator, that \<open>normalizeSlashes\<close> leaves as it is, and that is
  the whole root of every path that continues it with something other than a separator:
  \<open>/\<close> and \<open>c:/\<close> are such roots, \<open>//server/\<close> is not (\<open>rootRegExp\<close> takes the next
  component into the root).
\<close>

definition stableRoot :: "jsstring \<Rightarrow> bool" where
  "stableRoot r =
     (hasTrailingSeperator r \<and> normalizeSlashes r = r
      \<and> (\<forall>x. \<not> (x \<noteq> [] \<and> isSep (hd x)) \<longrightarrow> getRootLength (r @ x) = length r))"

text \<open>
  The components that \<open>parse\<close> finds after the root of a path that \<open>normalizeSlashes\<close>
  returned: none holds a separator or has white space at its ends, and only the first can
  be empty.
\<close>

definition goodItems :: "jsstring list \<Rightarrow> bool" where
  "goodItems xs =
     (\<not> (\<exists>x\<in>set xs. (\<exists>c\<in>set x. isSep c) \<or> \<not> trimmed x) \<and> \<not> (\<exists>x\<in>set (tl xs). x = []))"

text \<open>
  The pieces of a string between its separator code units; two separators in a row have
  an empty piece between them.
\<close>

fun separatorPieces :: "jsstring \<Rightarrow> jsstring list" where
  "separatorPieces [] = [[]]"
| "separatorPieces (c # cs) =
     (if isSep c then [] # separatorPieces cs
      else (c # hd (separatorPieces cs)) # tl (separatorPieces cs))"

text \<open>The string without the white space at its end.\<close>

definition rstrip :: "jsstring \<Rightarrow> jsstring" where
  "rstrip s = rev (dropWhile isSpace (rev s))"

text \<open>The root that \<open>parse\<close> puts at index 0: \<open>path.substring(0, rootLength)\<close>.\<close>

definition pathRoot :: "jsstring \<Rightarrow> jsstring" where
  "pathRoot path = take (getRootLength path) path"

text \<open>
  No \<open>..\<close> of the components climbs past the root: \<open>depth\<close> counts the names that are
  on the stack of \<open>reduce\<close> above the root, and every \<open>..\<close> finds one to pop.
\<close>

fun keepsRoot :: "nat \<Rightarrow> jsstring list \<Rightarrow> bool" where
  "keepsRoot depth [] = True"
| "keepsRoot depth (component # rest) =
     (if component = str ''.'' then keepsRoot depth rest
      else if component = str ''..'' then depth > 0 \<and> keepsRoot (depth - 1) rest
      else keepsRoot (Suc depth) rest)"


section \<open>Evaluation on concrete paths\<close>

lemma splitSlashes_Nil: "splitSlashes [] = [[]]"
  by (simp add: splitSlashes.simps)

lemma splitSlashes_Cons:
  "splitSlashes (c # cs) =
     (case dropWhile (\<lambda>c. c \<noteq> slash) (c # cs) of
        [] \<Rightarrow> [c # cs]
      | _ # r \<Rightarrow> takeWhile (\<lambda>c. c \<noteq> slash) (c # cs)
                 # splitSlashes (dropWhile (\<lambda>c. c = slash) r))"
  by (subst splitSlashes.simps) simp

lemma commonStart_Nil1: "commonStart env ic [] ts start = start"
  by (simp add: commonStart.simps)

lemma commonStart_Nil2: "commonStart env ic fs [] start = start"
  by (simp add: commonStart.simps)

lemma commonStart_Cons:
  "commonStart env ic (f # fs) (t # ts) start =
     (if start < length (f # fs) \<and> start < length (t # ts)
      then (if compareStrings env (Some ((f # fs) ! start)) (Some ((t # ts) ! start)) ic \<noteq> 0
            then start
            else commonStart env ic (f # fs) (t # ts) (start + 1))
      else start)"
  by (rule commonStart.simps)

lemmas char_eval = str_def slash_def backslash_def colon_def isSep_def lineTerminator_def
  isSpace_def isLetter_def isWordChar_def

lemmas path_eval = char_eval trim_def replaceSeparators.simps normalizeSlashes_def uncRoot_def driveRoot_def urlRoot_def
  rootRegExp_def getRootLength_def isAbsolute_def hasTrailingSeperator_def
  splitSlashes_Nil splitSlashes_Cons parse_def format_def normalize_path_def
  combineStep_def combine_def resolve_def Let_def

lemmas relative_eval = path_eval compareStrings_def noIntl_def asciiUpper_def
  commonStart_Nil1 commonStart_Nil2 commonStart_Cons relative_def resolveRelative_def

text \<open>The scenarios of the spec: \<open>normalize("a/./b/../c")\<close> and \<open>relative("/a/b", "/a/c", false)\<close>.\<close>

lemma normalize_scenario: "normalize_path (str ''a/./b/../c'') = str ''a/c''"
  by (simp add: path_eval)

lemma relative_scenario: "relative noIntl (str ''/a/b'') (str ''/a/c'') False = Inr (str ''../c'')"
  by (simp add: relative_eval)

section \<open>reduce and normalize\<close>

text \<open>\<open>parse\<close> always returns the root at index 0, so \<open>reduce\<close> is never given an empty array.\<close>

lemma parse_not_Nil: "parse path \<noteq> []"
  by (simp add: parse_def Let_def)

text \<open>
  C2. A \<open>..\<close> that has nothing before it to cancel is to stay at the front of the path.
  In \<open>reduce\<close> the array \<open>normalized\<close> starts with the root in it and the test is
  \<open>normalized.length > 0\<close>, so the first such \<open>..\<close> removes the root entry instead:
  \<open>normalize("../a")\<close> is \<open>"a"\<close>, the leading \<open>..\<close> is lost.
\<close>

theorem normalize_loses_leading_dotdot:
  "reduce (parse (normalizeSlashes (str ''../a''))) = [str ''a'']
   \<and> normalize_path (str ''../a'') = str ''a''
   \<and> normalize_path (str ''../a'') \<noteq> str ''../a''"
  by (simp add: path_eval)

text \<open>
  C5. \<open>normalize\<close> is not idempotent on \<open>"../.."\<close>: the first \<open>..\<close> removes the root entry,
  the second is kept, and normalizing the result \<open>".."\<close> once more removes the root entry
  again and leaves the empty path.
\<close>

theorem normalize_not_idempotent:
  "normalize_path (str ''../..'') = str ''..''
   \<and> normalize_path (normalize_path (str ''../..'')) = []
   \<and> normalize_path (normalize_path (str ''../..'')) \<noteq> normalize_path (str ''../..'')"
  by (simp add: path_eval)

text \<open>
  The same happens without the root entry being removed, where the reduction uncovers a
  component that reads as a drive root: \<open>"./c: a"\<close> becomes \<open>"c: a"\<close>, and that becomes
  \<open>"c:a"\<close>.
\<close>

lemma normalize_not_idempotent_drive:
  "normalize_path (str ''./c: a'') = str ''c: a''
   \<and> normalize_path (normalize_path (str ''./c: a'')) = str ''c:a''"
  by (simp add: path_eval)

text \<open>
  C6. \<open>normalize\<close> returns the formatted reduced components, followed by one more
  separator exactly when the input ends in a separator and more than one entry (the root
  counted) is left after the reduction.
\<close>

theorem normalize_trailing_separator:
  "normalize_path path =
     format (reduce (parse (normalizeSlashes path)))
       @ (if hasTrailingSeperator path \<and> length (reduce (parse (normalizeSlashes path))) > 1
          then [slash] else [])
   \<and> (normalize_path path = format (reduce (parse (normalizeSlashes path))) @ [slash])
       = (hasTrailingSeperator path \<and> length (reduce (parse (normalizeSlashes path))) > 1)"
  by (simp add: normalize_path_def Let_def)

theorem normalize_trailing_separator_witness:
  "normalize_path (str ''a/b/'') = str ''a/b/'' \<and> normalize_path (str ''a/b'') = str ''a/b''
   \<and> normalize_path (str ''a/../'') = []"
proof -
  have 1: "hasTrailingSeperator (str ''a/b/'')" "\<not> hasTrailingSeperator (str ''a/b'')"
      "hasTrailingSeperator (str ''a/../'')"
    by (simp_all add: path_eval)
  have 2: "reduce (parse (normalizeSlashes (str ''a/b/''))) = [[], str ''a'', str ''b'']"
      "reduce (parse (normalizeSlashes (str ''a/b''))) = [[], str ''a'', str ''b'']"
      "reduce (parse (normalizeSlashes (str ''a/../''))) = [[]]"
    by (simp_all add: path_eval)
  show ?thesis
    using normalize_trailing_separator [of "str ''a/b/''"]
      normalize_trailing_separator [of "str ''a/b''"]
      normalize_trailing_separator [of "str ''a/../''"]
    unfolding 2 using 1 by (simp add: format_def char_eval)
qed

section \<open>relative\<close>

lemma commonStart_ge: "start \<le> commonStart env ic fs ts start"
proof (induction env ic fs ts start rule: commonStart.induct)
  case (1 env ic fs ts start)
  show ?case
  proof (cases "start < length fs \<and> start < length ts
      \<and> compareStrings env (Some (fs ! start)) (Some (ts ! start)) ic = 0")
    case True
    then have "start + 1 \<le> commonStart env ic fs ts (start + 1)"
      using "1.IH" by simp
    then show ?thesis
      using True by (subst commonStart.simps) simp
  next
    case False
    then show ?thesis
      by (subst commonStart.simps) auto
  qed
qed

lemma commonStart_zero:
  "(commonStart env ic fs ts 0 = 0)
    = (fs = [] \<or> ts = [] \<or> compareStrings env (Some (fs ! 0)) (Some (ts ! 0)) ic \<noteq> 0)"
proof (cases "0 < length fs \<and> 0 < length ts
    \<and> compareStrings env (Some (fs ! 0)) (Some (ts ! 0)) ic = 0")
  case True
  have "0 + 1 \<le> commonStart env ic fs ts (0 + 1)"
    by (rule commonStart_ge)
  then show ?thesis
    using True by (subst commonStart.simps) auto
next
  case False
  then show ?thesis
    by (subst commonStart.simps) auto
qed

text \<open>
  C8. \<open>relative\<close> throws when \<open>from\<close> is not rooted, throws when \<open>to\<close> is not rooted, and
  returns a path when both are rooted.
\<close>

theorem relative_throws_iff_not_rooted:
  "(\<not> isAbsolute from \<longrightarrow> relative env from to ignoreCase = Inl (Error ''Path not absolute: from''))
   \<and> (isAbsolute from \<and> \<not> isAbsolute to
        \<longrightarrow> relative env from to ignoreCase = Inl (Error ''Path not absolute: to''))
   \<and> (isAbsolute from \<and> isAbsolute to \<longrightarrow> (\<exists>r. relative env from to ignoreCase = Inr r))"
  by (simp add: relative_def Let_def)

theorem relative_throws_iff_not_rooted_witness:
  "relative noIntl (str ''a'') (str ''/b'') False = Inl (Error ''Path not absolute: from'')
   \<and> relative noIntl (str ''/a'') (str ''b'') False = Inl (Error ''Path not absolute: to'')
   \<and> (\<exists>r. relative noIntl (str ''/a'') (str ''/b'') False = Inr r)"
proof -
  have 1: "\<not> isAbsolute (str ''a'')" "\<not> isAbsolute (str ''b'')"
      "isAbsolute (str ''/a'')" "isAbsolute (str ''/b'')"
    by (simp_all add: path_eval)
  show ?thesis
    using relative_throws_iff_not_rooted [of "str ''a''" noIntl "str ''/b''" False]
      relative_throws_iff_not_rooted [of "str ''/a''" noIntl "str ''b''" False]
      relative_throws_iff_not_rooted [of "str ''/a''" noIntl "str ''/b''" False]
    using 1 by simp
qed

section \<open>CompilerHost.writeFile\<close>


lemma sameName_refl: "sameName cf v a a"
  by (simp add: sameName_def)

lemma sameName_sym: "sameName cf v a b \<Longrightarrow> sameName cf v b a"
  by (auto simp: sameName_def split: if_splits)

lemma sameName_trans: "sameName cf v a b \<Longrightarrow> sameName cf v b c \<Longrightarrow> sameName cf v a c"
  by (auto simp: sameName_def split: if_splits)

lemma sameName_tree: "sameName cf (v\<lparr>tree := t\<rparr>) = sameName cf v"
  by (simp add: sameName_def fun_eq_iff)

lemma findIndex_ge: "- 1 \<le> findIndex p xs"
  by (induction xs) (auto simp: Let_def)

lemma findIndex_neg: "(findIndex p xs < 0) = (\<forall>x\<in>set xs. \<not> p x)"
  using findIndex_ge [of p]
  by (induction xs) (auto simp: Let_def)

lemma findIndex_nonneg:
  "0 \<le> findIndex p xs \<Longrightarrow>
     nat (findIndex p xs) < length xs \<and> p (xs ! nat (findIndex p xs))
     \<and> (\<forall>j<nat (findIndex p xs). \<not> p (xs ! j))"
proof (induction xs)
  case Nil
  then show ?case by simp
next
  case (Cons x xs)
  show ?case
  proof (cases "p x")
    case True
    then show ?thesis by simp
  next
    case False
    with Cons.prems have nn: "0 \<le> findIndex p xs"
      by (auto simp: Let_def split: if_splits)
    then have eq: "findIndex p (x # xs) = findIndex p xs + 1"
      using False by (simp add: Let_def)
    have n: "nat (findIndex p xs + 1) = Suc (nat (findIndex p xs))"
      using nn by simp
    show ?thesis
      unfolding eq n using Cons.IH [OF nn] False
      by (auto simp: less_Suc_eq_0_disj)
  qed
qed

lemma uniqueNames_append:
  "uniqueNames same (ds @ [d]) =
     (uniqueNames same ds
      \<and> (\<forall>e\<in>set ds. \<not> same (doc_file d) (doc_file e) \<and> \<not> same (doc_file e) (doc_file d)))"
  by (induction ds) auto

lemma uniqueNames_update:
  assumes "uniqueNames same ds" and "i < length ds"
    and "\<And>e. same (doc_file d) (doc_file e) = same (doc_file (ds ! i)) (doc_file e)"
    and "\<And>e. same (doc_file e) (doc_file d) = same (doc_file e) (doc_file (ds ! i))"
  shows "uniqueNames same (ds[i := d])"
  using assms
proof (induction ds arbitrary: i)
  case Nil
  then show ?case by simp
next
  case (Cons a ds)
  show ?case
  proof (cases i)
    case 0
    then show ?thesis using Cons.prems by simp
  next
    case (Suc k)
    have k: "k < length ds" using Cons.prems(2) Suc by simp
    have "uniqueNames same (ds[k := d])"
      using Cons.IH [of k] Cons.prems k Suc by simp
    moreover have "\<forall>e\<in>set (ds[k := d]). \<not> same (doc_file a) (doc_file e) \<and> \<not> same (doc_file e) (doc_file a)"
    proof
      fix e assume "e \<in> set (ds[k := d])"
      then have "e = d \<or> e \<in> set ds"
        using set_update_subset_insert [of ds k d] by auto
      moreover have "ds ! k \<in> set ds" using k by simp
      ultimately show "\<not> same (doc_file a) (doc_file e) \<and> \<not> same (doc_file e) (doc_file a)"
        using Cons.prems(1,3,4) Suc by auto
    qed
    ultimately show ?thesis using Suc by simp
  qed
qed


lemma writeFile_flag:
  "writeFile ops host f c b = Inr host' \<Longrightarrow>
     useCaseSensitiveFileNames (vfs host') = useCaseSensitiveFileNames (vfs host)"
  by (auto simp: writeFile_def Let_def split: sum.splits prod.splits option.splits if_splits)

lemma sameName_flag:
  "useCaseSensitiveFileNames v' = useCaseSensitiveFileNames v \<Longrightarrow> sameName cf v' = sameName cf v"
  by (simp add: sameName_def fun_eq_iff)

lemma writeFile_step:
  assumes "writeFile ops host f c b = Inr host'"
  shows "case addFile ops (tree (vfs host)) f of
           Inl e \<Rightarrow> False
         | Inr (None, fs1) \<Rightarrow> outputs host' = outputs host
         | Inr (Some entry, fs1) \<Rightarrow>
             (let document = writtenDocument ops fs1 entry c b;
                  same = (\<lambda>doc. sameName (caseFold ops) (vfs host) (doc_file document) (doc_file doc))
              in if \<exists>doc\<in>set (outputs host). same doc
                 then \<exists>i<length (outputs host). same (outputs host ! i)
                        \<and> (\<forall>j<i. \<not> same (outputs host ! j))
                        \<and> outputs host' = (outputs host)[i := document]
                 else outputs host' = outputs host @ [document])"
proof (cases "addFile ops (tree (vfs host)) f")
  case (Inl e)
  then show ?thesis using assms by (simp add: writeFile_def Let_def)
next
  case (Inr r)
  obtain entry fs1 where r: "r = (entry, fs1)" by (cases r)
  show ?thesis
  proof (cases entry)
    case None
    then show ?thesis using assms Inr r by (auto simp: writeFile_def Let_def)
  next
    case (Some e)
    define document where "document = writtenDocument ops fs1 e c b"
    define same where "same = (\<lambda>doc. sameName (caseFold ops) (vfs host) (doc_file document) (doc_file doc))"
    define index where "index = findIndex same (outputs host)"
    have out: "outputs host' = (if index < 0 then outputs host @ [document]
        else (outputs host)[nat index := document])"
      using assms Inr r Some
      by (auto simp: writeFile_def Let_def writtenDocument_def document_def same_def index_def
          sameName_tree)
    show ?thesis
    proof (cases "index < 0")
      case True
      then have "\<not> (\<exists>doc\<in>set (outputs host). same doc)"
        unfolding index_def by (simp add: findIndex_neg)
      then show ?thesis
        using out True Inr r Some by (simp add: Let_def document_def same_def)
    next
      case False
      then have nn: "0 \<le> findIndex same (outputs host)"
        unfolding index_def by simp
      have ex: "\<exists>doc\<in>set (outputs host). same doc"
        using False unfolding index_def by (simp add: findIndex_neg)
      have "\<exists>i<length (outputs host). same (outputs host ! i)
          \<and> (\<forall>j<i. \<not> same (outputs host ! j))
          \<and> outputs host' = (outputs host)[i := document]"
        using findIndex_nonneg [OF nn] out False unfolding index_def by auto
      then show ?thesis
        using ex Inr r Some by (simp add: Let_def document_def same_def)
    qed
  qed
qed

lemma writeFile_unique:
  assumes "writeFile ops host f c b = Inr host'"
    and "uniqueNames (sameName (caseFold ops) (vfs host)) (outputs host)"
  shows "uniqueNames (sameName (caseFold ops) (vfs host')) (outputs host')"
proof -
  have s: "sameName (caseFold ops) (vfs host') = sameName (caseFold ops) (vfs host)"
    by (rule sameName_flag) (rule writeFile_flag [OF assms(1)])
  note step = writeFile_step [OF assms(1)]
  show ?thesis
  proof (cases "addFile ops (tree (vfs host)) f")
    case (Inl e)
    then show ?thesis using step by simp
  next
    case (Inr r)
    obtain entry fs1 where r: "r = (entry, fs1)" by (cases r)
    show ?thesis
    proof (cases entry)
      case None
      then show ?thesis using step Inr r assms(2) s by simp
    next
      case (Some e)
      define document where "document = writtenDocument ops fs1 e c b"
      define same where "same = sameName (caseFold ops) (vfs host)"
      show ?thesis
      proof (cases "\<exists>doc\<in>set (outputs host). same (doc_file document) (doc_file doc)")
        case False
        then have "outputs host' = outputs host @ [document]"
          using step Inr r Some by (simp add: Let_def document_def same_def)
        moreover have "\<forall>e\<in>set (outputs host). \<not> same (doc_file document) (doc_file e)
            \<and> \<not> same (doc_file e) (doc_file document)"
          using False sameName_sym unfolding same_def by blast
        ultimately show ?thesis
          using assms(2) unfolding s same_def by (simp add: uniqueNames_append)
      next
        case True
        then obtain i where i: "i < length (outputs host)"
            "same (doc_file document) (doc_file (outputs host ! i))"
            "outputs host' = (outputs host)[i := document]"
          using step Inr r Some by (auto simp: Let_def document_def same_def)
        have "uniqueNames same ((outputs host)[i := document])"
        proof (rule uniqueNames_update)
          show "uniqueNames same (outputs host)" using assms(2) by (simp add: same_def)
          show "i < length (outputs host)" by (rule i(1))
          show "same (doc_file document) (doc_file e) = same (doc_file (outputs host ! i)) (doc_file e)" for e
            using i(2) sameName_sym sameName_trans unfolding same_def by blast
          show "same (doc_file e) (doc_file document) = same (doc_file e) (doc_file (outputs host ! i))" for e
            using i(2) sameName_sym sameName_trans unfolding same_def by blast
        qed
        then show ?thesis unfolding s i(3) same_def .
      qed
    qed
  qed
qed

lemma writeFiles_unique:
  "writeFiles ops host calls = Inr host' \<Longrightarrow>
   uniqueNames (sameName (caseFold ops) (vfs host)) (outputs host) \<Longrightarrow>
   uniqueNames (sameName (caseFold ops) (vfs host')) (outputs host')"
proof (induction calls arbitrary: host)
  case Nil
  then show ?case by simp
next
  case (Cons call calls)
  obtain f c b where call: "call = (f, c, b)" by (cases call)
  from Cons.prems(1) obtain h1 where h1: "writeFile ops host f c b = Inr h1"
      "writeFiles ops h1 calls = Inr host'"
    unfolding call by (auto split: sum.splits)
  show ?case
    by (rule Cons.IH [OF h1(2)]) (rule writeFile_unique [OF h1(1) Cons.prems(2)])
qed

text \<open>
  C10. Take a host whose \<open>outputs\<close> is empty, any sequence of calls of \<open>writeFile\<close> on it
  that return, and one more call that returns. Before and after that call no two
  documents of \<open>outputs\<close> have the same file name under \<open>sameName\<close>. If \<open>addFile\<close> gave an
  entry, the call puts its document at the first index whose document has the same name,
  in place of that one, and at the end if there is none; otherwise \<open>outputs\<close> stays as
  it is.
\<close>

theorem writeFile_one_document_per_name:
  assumes "writeFiles ops \<lparr>vfs = v, outputs = []\<rparr> calls = Inr host"
    and "writeFile ops host fileName content writeByteOrderMark = Inr host'"
  shows "uniqueNames (sameName (caseFold ops) (vfs host)) (outputs host)
    \<and> uniqueNames (sameName (caseFold ops) (vfs host')) (outputs host')
    \<and> (case addFile ops (tree (vfs host)) fileName of
          Inl e \<Rightarrow> False
        | Inr (None, fs1) \<Rightarrow> outputs host' = outputs host
        | Inr (Some entry, fs1) \<Rightarrow>
            (let document = writtenDocument ops fs1 entry content writeByteOrderMark;
                 same = (\<lambda>doc. sameName (caseFold ops) (vfs host) (doc_file document)
                                   (doc_file doc))
             in if \<exists>doc\<in>set (outputs host). same doc
                then \<exists>i<length (outputs host). same (outputs host ! i)
                       \<and> (\<forall>j<i. \<not> same (outputs host ! j))
                       \<and> outputs host' = (outputs host)[i := document]
                else outputs host' = outputs host @ [document]))"
proof -
  have 1: "uniqueNames (sameName (caseFold ops) (vfs host)) (outputs host)"
    using writeFiles_unique [OF assms(1)] by simp
  have 2: "uniqueNames (sameName (caseFold ops) (vfs host')) (outputs host')"
    by (rule writeFile_unique [OF assms(2) 1])
  show ?thesis
    using 1 2 writeFile_step [OF assms(2)] by blast
qed

text \<open>
  On the list file system, case-insensitive: after \<open>a.ts\<close> and \<open>b.ts\<close>, writing \<open>A.TS\<close> with
  a byte order mark replaces the document at index 0.
\<close>

theorem writeFile_one_document_per_name_witness:
  "\<exists>host host'.
     writeFiles listOperations freshHost
       [(str ''a.ts'', str ''x'', False), (str ''b.ts'', str ''y'', False)] = Inr host
     \<and> writeFile listOperations host (str ''A.TS'') (str ''z'') True = Inr host'
     \<and> outputs host = [TextDocument [] None (str ''a.ts'') (str ''x'') 0 1,
                        TextDocument [] None (str ''b.ts'') (str ''y'') 0 1]
     \<and> outputs host' = [TextDocument [] None (str ''A.TS'') (65279 # str ''z'') 0 2,
                         TextDocument [] None (str ''b.ts'') (str ''y'') 0 1]
     \<and> uniqueNames (sameName asciiUpper (vfs host')) (outputs host')"
proof -
  define host where "host = \<lparr>vfs = \<lparr>useCaseSensitiveFileNames = False,
        tree = [(str ''b.ts'', str ''y''), (str ''a.ts'', str ''x'')]\<rparr>,
      outputs = [TextDocument [] None (str ''a.ts'') (str ''x'') 0 1,
                 TextDocument [] None (str ''b.ts'') (str ''y'') 0 1]\<rparr>"
  define host' where "host' = \<lparr>vfs = \<lparr>useCaseSensitiveFileNames = False,
        tree = [(str ''A.TS'', 65279 # str ''z''), (str ''b.ts'', str ''y''),
                (str ''a.ts'', str ''x'')]\<rparr>,
      outputs = [TextDocument [] None (str ''A.TS'') (65279 # str ''z'') 0 2,
                 TextDocument [] None (str ''b.ts'') (str ''y'') 0 1]\<rparr>"
  have 1: "writeFiles listOperations \<lparr>vfs = \<lparr>useCaseSensitiveFileNames = False, tree = []\<rparr>,
        outputs = []\<rparr>
      [(str ''a.ts'', str ''x'', False), (str ''b.ts'', str ''y'', False)] = Inr host"
    by (simp add: host_def writeFile_def listOperations_def newTextDocument_def sameName_def
        asciiUpper_def str_def Let_def)
  have 2: "writeFile listOperations host (str ''A.TS'') (str ''z'') True = Inr host'"
    by (simp add: host_def host'_def writeFile_def listOperations_def newTextDocument_def
        sameName_def asciiUpper_def str_def Let_def)
  have "uniqueNames (sameName (caseFold listOperations) (vfs host')) (outputs host')"
    using writeFile_one_document_per_name [OF 1 2] by blast
  then have 3: "uniqueNames (sameName asciiUpper (vfs host')) (outputs host')"
    by (simp add: listOperations_def)
  have 4: "outputs host = [TextDocument [] None (str ''a.ts'') (str ''x'') 0 1,
                        TextDocument [] None (str ''b.ts'') (str ''y'') 0 1]"
     "outputs host' = [TextDocument [] None (str ''A.TS'') (65279 # str ''z'') 0 2,
                         TextDocument [] None (str ''b.ts'') (str ''y'') 0 1]"
    by (simp_all add: host_def host'_def)
  show ?thesis
    using 1 2 3 4 unfolding freshHost_def by blast
qed

section \<open>stableSort\<close>


lemma enumerate_indices: "map fst (enumerate 0 xs) = [0..<length xs]"
  by (simp add: enumerate_eq_zip)

lemma mset_insertBy: "mset (insertBy c x ys) = add_mset x (mset ys)"
  by (induction ys) auto

lemma mset_arraySort: "mset (arraySort c xs) = mset xs"
  by (induction xs) (auto simp: arraySort_def mset_insertBy)

lemma set_insertBy: "set (insertBy c x ys) = insert x (set ys)"
  by (induction ys) auto

lemma sorted_insertBy:
  assumes "sorted_wrt (\<lambda>a b. c a b \<le> 0) ys"
    and "\<And>y. y \<in> set ys \<Longrightarrow> \<not> c x y \<le> 0 \<Longrightarrow> c y x \<le> 0"
    and "\<And>a b. a \<in> set ys \<Longrightarrow> b \<in> set ys \<Longrightarrow> c x a \<le> 0 \<Longrightarrow> c a b \<le> 0 \<Longrightarrow> c x b \<le> 0"
  shows "sorted_wrt (\<lambda>a b. c a b \<le> 0) (insertBy c x ys)"
  using assms
proof (induction ys)
  case Nil
  then show ?case by simp
next
  case (Cons y ys)
  show ?case
  proof (cases "c x y \<le> 0")
    case True
    then show ?thesis
      using Cons.prems by auto
  next
    case False
    have "sorted_wrt (\<lambda>a b. c a b \<le> 0) (insertBy c x ys)"
      using Cons.IH Cons.prems by auto
    moreover have "c y x \<le> 0"
      using Cons.prems(2) False by simp
    ultimately show ?thesis
      using False Cons.prems(1) by (auto simp: set_insertBy)
  qed
qed

lemma set_arraySort: "set (arraySort c xs) = set xs"
  by (induction xs) (auto simp: arraySort_def set_insertBy)

lemma sorted_arraySort:
  assumes "\<And>x y. x \<in> set xs \<Longrightarrow> y \<in> set xs \<Longrightarrow> \<not> c x y \<le> 0 \<Longrightarrow> c y x \<le> 0"
    and "\<And>x a b. x \<in> set xs \<Longrightarrow> a \<in> set xs \<Longrightarrow> b \<in> set xs \<Longrightarrow>
           c x a \<le> 0 \<Longrightarrow> c a b \<le> 0 \<Longrightarrow> c x b \<le> 0"
  shows "sorted_wrt (\<lambda>a b. c a b \<le> 0) (arraySort c xs)"
  using assms
proof (induction xs)
  case Nil
  show ?case by (simp add: arraySort_def)
next
  case (Cons x xs)
  have s: "set (arraySort c xs) = set xs"
    by (rule set_arraySort)
  have "sorted_wrt (\<lambda>a b. c a b \<le> 0) (arraySort c xs)"
  proof (rule Cons.IH)
    show "\<And>x y. x \<in> set xs \<Longrightarrow> y \<in> set xs \<Longrightarrow> \<not> c x y \<le> 0 \<Longrightarrow> c y x \<le> 0"
      using Cons.prems(1) by (meson list.set_intros(2))
    show "\<And>x a b. x \<in> set xs \<Longrightarrow> a \<in> set xs \<Longrightarrow> b \<in> set xs \<Longrightarrow>
           c x a \<le> 0 \<Longrightarrow> c a b \<le> 0 \<Longrightarrow> c x b \<le> 0"
      using Cons.prems(2) by (meson list.set_intros(2))
  qed
  then have "sorted_wrt (\<lambda>a b. c a b \<le> 0) (insertBy c x (arraySort c xs))"
  proof (rule sorted_insertBy)
    show "\<And>y. y \<in> set (arraySort c xs) \<Longrightarrow> \<not> c x y \<le> 0 \<Longrightarrow> c y x \<le> 0"
      unfolding s using Cons.prems(1) by (meson list.set_intros)
    show "\<And>a b. a \<in> set (arraySort c xs) \<Longrightarrow> b \<in> set (arraySort c xs) \<Longrightarrow>
        c x a \<le> 0 \<Longrightarrow> c a b \<le> 0 \<Longrightarrow> c x b \<le> 0"
      unfolding s using Cons.prems(2) by (meson list.set_intros)
  qed
  then show ?case by (simp add: arraySort_def)
qed

lemma comparator_converse:
  assumes "consistentComparator A c" "a \<in> A" "b \<in> A"
  shows "(c a b < 0) = (c b a > 0)"
proof -
  have "\<forall>a\<in>A. \<forall>b\<in>A. (c a b < 0) = (c b a > 0)"
    using assms(1) unfolding consistentComparator_def by (elim conjE)
  then show ?thesis using assms(2,3) by blast
qed

lemma comparator_le_le:
  assumes "consistentComparator A c" "a \<in> A" "b \<in> A" "d \<in> A" "c a b \<le> 0" "c b d \<le> 0"
  shows "c a d \<le> 0"
proof -
  have "\<forall>a\<in>A. \<forall>b\<in>A. \<forall>d\<in>A. c a b \<le> 0 \<and> c b d \<le> 0 \<longrightarrow> c a d \<le> 0"
    using assms(1) unfolding consistentComparator_def by (elim conjE)
  then have "c a b \<le> 0 \<and> c b d \<le> 0 \<longrightarrow> c a d \<le> 0"
    using assms(2,3,4) by blast
  then show ?thesis using assms(5,6) by blast
qed

lemma comparator_le_less:
  assumes "consistentComparator A c" "a \<in> A" "b \<in> A" "d \<in> A" "c a b \<le> 0" "c b d < 0"
  shows "c a d < 0"
proof -
  have "\<forall>a\<in>A. \<forall>b\<in>A. \<forall>d\<in>A. c a b \<le> 0 \<and> c b d < 0 \<longrightarrow> c a d < 0"
    using assms(1) unfolding consistentComparator_def by (elim conjE)
  then have "c a b \<le> 0 \<and> c b d < 0 \<longrightarrow> c a d < 0"
    using assms(2,3,4) by blast
  then show ?thesis using assms(5,6) by blast
qed

lemma comparator_less_le:
  assumes "consistentComparator A c" "a \<in> A" "b \<in> A" "d \<in> A" "c a b < 0" "c b d \<le> 0"
  shows "c a d < 0"
proof -
  have "\<forall>a\<in>A. \<forall>b\<in>A. \<forall>d\<in>A. c a b < 0 \<and> c b d \<le> 0 \<longrightarrow> c a d < 0"
    using assms(1) unfolding consistentComparator_def by (elim conjE)
  then have "c a b < 0 \<and> c b d \<le> 0 \<longrightarrow> c a d < 0"
    using assms(2,3,4) by blast
  then show ?thesis using assms(5,6) by blast
qed

lemma comparer_zero_sym:
  assumes "consistentComparator A c" "a \<in> A" "b \<in> A" "c a b = 0"
  shows "c b a = 0"
proof -
  have "(c a b < 0) = (c b a > 0)" "(c b a < 0) = (c a b > 0)"
    using assms(1-3) by (simp_all only: comparator_converse)
  then show ?thesis using assms(4) by simp
qed

lemma indexComparer_le:
  "(indexComparer xs c i j \<le> 0) = (c (xs ! i) (xs ! j) < 0 \<or> (c (xs ! i) (xs ! j) = 0 \<and> i \<le> j))"
  by (auto simp: indexComparer_def compareValues_def Let_def)

lemma indexComparer_total:
  assumes "consistentComparator (set xs) c" "i < length xs" "j < length xs"
    and "\<not> indexComparer xs c i j \<le> 0"
  shows "indexComparer xs c j i \<le> 0"
proof -
  have m: "xs ! i \<in> set xs" "xs ! j \<in> set xs" using assms(2,3) by simp_all
  have 1: "(c (xs ! j) (xs ! i) < 0) = (c (xs ! i) (xs ! j) > 0)"
    by (rule comparator_converse [OF assms(1) m(2) m(1)])
  show ?thesis
  proof (cases "c (xs ! i) (xs ! j) = 0")
    case True
    then have "c (xs ! j) (xs ! i) = 0"
      by (rule comparer_zero_sym [OF assms(1) m])
    then show ?thesis using True assms(4) by (simp add: indexComparer_le)
  next
    case False
    then show ?thesis using assms(4) 1 by (simp add: indexComparer_le)
  qed
qed

lemma indexComparer_trans:
  assumes cc: "consistentComparator (set xs) c" and "i < length xs" "j < length xs" "k < length xs"
    and ij: "indexComparer xs c i j \<le> 0" and jk: "indexComparer xs c j k \<le> 0"
  shows "indexComparer xs c i k \<le> 0"
proof -
  let ?a = "xs ! i" and ?b = "xs ! j" and ?d = "xs ! k"
  have m: "?a \<in> set xs" "?b \<in> set xs" "?d \<in> set xs" using assms(2-4) by simp_all
  have ab: "c ?a ?b \<le> 0" and bd: "c ?b ?d \<le> 0"
    using ij jk by (auto simp: indexComparer_le)
  show ?thesis
  proof (cases "c ?a ?b = 0 \<and> c ?b ?d = 0")
    case True
    then have "c ?b ?a = 0" "c ?d ?b = 0"
      using comparer_zero_sym [OF cc m(1) m(2)] comparer_zero_sym [OF cc m(2) m(3)] by simp_all
    then have "c ?d ?a \<le> 0"
      using comparator_le_le [OF cc m(3) m(2) m(1)] by simp
    moreover have "c ?a ?d \<le> 0"
      by (rule comparator_le_le [OF cc m ab bd])
    moreover have "(c ?a ?d < 0) = (c ?d ?a > 0)"
      by (rule comparator_converse [OF cc m(1) m(3)])
    ultimately have "c ?a ?d = 0" by simp
    moreover have "i \<le> k" using ij jk True by (simp add: indexComparer_le)
    ultimately show ?thesis by (simp add: indexComparer_le)
  next
    case False
    then have "c ?a ?b < 0 \<or> c ?b ?d < 0" using ab bd by auto
    then have "c ?a ?d < 0"
      using comparator_less_le [OF cc m _ bd] comparator_le_less [OF cc m ab] by blast
    then show ?thesis by (simp add: indexComparer_le)
  qed
qed

lemma sortedIndices_mset: "mset (sortedIndices xs c) = mset [0..<length xs]"
  by (simp add: sortedIndices_def mset_arraySort enumerate_indices)

lemma sortedIndices_set: "set (sortedIndices xs c) = {0..<length xs}"
  by (simp add: sortedIndices_def set_arraySort enumerate_indices)

lemma sortedIndices_distinct: "distinct (sortedIndices xs c)"
  using sortedIndices_mset [of xs c] by (metis distinct_upt mset_eq_imp_distinct_iff)

lemma sortedIndices_length: "length (sortedIndices xs c) = length xs"
  using sortedIndices_mset [of xs c] by (metis length_upt mset_eq_length minus_nat.diff_0)

lemma sortedIndices_sorted:
  assumes "consistentComparator (set xs) c"
  shows "sorted_wrt (\<lambda>i j. indexComparer xs c i j \<le> 0) (sortedIndices xs c)"
  unfolding sortedIndices_def enumerate_indices
proof (rule sorted_arraySort)
  fix x y assume a: "x \<in> set [0..<length xs]" "y \<in> set [0..<length xs]"
    "\<not> indexComparer xs c x y \<le> 0"
  have "x < length xs" "y < length xs" using a(1,2) by simp_all
  then show "indexComparer xs c y x \<le> 0"
    using a(3) by (rule indexComparer_total [OF assms])
next
  fix x a b assume a: "x \<in> set [0..<length xs]" "a \<in> set [0..<length xs]"
    "b \<in> set [0..<length xs]"
    "indexComparer xs c x a \<le> 0" "indexComparer xs c a b \<le> 0"
  have "x < length xs" "a < length xs" "b < length xs" using a(1,2,3) by simp_all
  then show "indexComparer xs c x b \<le> 0"
    using a(4,5) by (rule indexComparer_trans [OF assms])
qed

lemma stableSortList_mset: "mset (stableSortList xs c) = mset xs"
proof -
  have "mset (stableSortList xs c) = image_mset (\<lambda>i. xs ! i) (mset (sortedIndices xs c))"
    by (simp add: stableSortList_def)
  also have "\<dots> = mset (map (\<lambda>i. xs ! i) [0..<length xs])"
    by (simp add: sortedIndices_mset)
  also have "\<dots> = mset xs"
    by (simp add: map_nth)
  finally show ?thesis .
qed

lemma stableSortList_sorted:
  assumes "consistentComparator (set xs) c"
  shows "sorted_wrt (\<lambda>a b. c a b \<le> 0) (stableSortList xs c)"
proof -
  have "sorted_wrt (\<lambda>i j. c (xs ! i) (xs ! j) \<le> 0) (sortedIndices xs c)"
    by (rule sorted_wrt_mono_rel [OF _ sortedIndices_sorted [OF assms]])
      (auto simp: indexComparer_le)
  then show ?thesis
    by (simp add: stableSortList_def sorted_wrt_map)
qed

lemma sortedIndices_stable:
  assumes "consistentComparator (set xs) c" and "p < q" and "q < length xs"
    and "c (xs ! (sortedIndices xs c ! p)) (xs ! (sortedIndices xs c ! q)) = 0"
  shows "sortedIndices xs c ! p < sortedIndices xs c ! q"
proof -
  have q: "q < length (sortedIndices xs c)" using assms(3) by (simp add: sortedIndices_length)
  have "indexComparer xs c (sortedIndices xs c ! p) (sortedIndices xs c ! q) \<le> 0"
    using sortedIndices_sorted [OF assms(1)] assms(2) q by (simp add: sorted_wrt_iff_nth_less)
  then have "sortedIndices xs c ! p \<le> sortedIndices xs c ! q"
    using assms(4) by (simp add: indexComparer_le)
  moreover have "sortedIndices xs c ! p \<noteq> sortedIndices xs c ! q"
    using sortedIndices_distinct [of xs c] assms(2) q by (simp add: nth_eq_iff_index_eq)
  ultimately show ?thesis by simp
qed

lemma sorted_wrt_mset_unique:
  assumes "\<And>x y. x \<in> set xs \<Longrightarrow> y \<in> set xs \<Longrightarrow> R x y \<Longrightarrow> R y x \<Longrightarrow> x = y"
    and "sorted_wrt R xs" and "sorted_wrt R ys" and "mset xs = mset ys"
  shows "xs = ys"
  using assms
proof (induction xs arbitrary: ys)
  case Nil
  from Nil.prems(4) show ?case by simp
next
  case (Cons x xs)
  from Cons.prems(4) obtain y ys' where ys: "ys = y # ys'"
    by (cases ys) auto
  have sets: "set (x # xs) = set (y # ys')"
    using Cons.prems(4) unfolding ys by (rule mset_eq_setD)
  have xy: "x = y"
  proof (rule ccontr)
    assume ne: "x \<noteq> y"
    then have "x \<in> set ys'" and "y \<in> set xs"
      using sets by auto
    then have "R y x" and "R x y"
      using Cons.prems(2,3) unfolding ys by auto
    moreover have "x \<in> set (x # xs)" "y \<in> set (x # xs)"
      using \<open>y \<in> set xs\<close> by simp_all
    ultimately have "x = y"
      by (rule_tac Cons.prems(1))
    then show False using ne by simp
  qed
  have "xs = ys'"
  proof (rule Cons.IH)
    show "\<And>a b. a \<in> set xs \<Longrightarrow> b \<in> set xs \<Longrightarrow> R a b \<Longrightarrow> R b a \<Longrightarrow> a = b"
      by (rule Cons.prems(1)) simp_all
    show "sorted_wrt R xs" using Cons.prems(2) by simp
    show "sorted_wrt R ys'" using Cons.prems(3) unfolding ys by simp
    show "mset xs = mset ys'" using Cons.prems(4) unfolding ys xy by simp
  qed
  then show ?case unfolding ys xy by simp
qed

lemma indexComparer_antisym:
  assumes "consistentComparator (set xs) c" "i < length xs" "j < length xs"
    and "indexComparer xs c i j \<le> 0" "indexComparer xs c j i \<le> 0"
  shows "i = j"
proof -
  have m: "xs ! i \<in> set xs" "xs ! j \<in> set xs" using assms(2,3) by simp_all
  have "(c (xs ! i) (xs ! j) < 0) = (c (xs ! j) (xs ! i) > 0)"
    by (rule comparator_converse [OF assms(1) m])
  moreover have "(c (xs ! j) (xs ! i) < 0) = (c (xs ! i) (xs ! j) > 0)"
    by (rule comparator_converse [OF assms(1) m(2) m(1)])
  ultimately show ?thesis
    using assms(4,5) by (auto simp: indexComparer_le)
qed

text \<open>
  Whatever algorithm \<open>Array.prototype.sort\<close> uses: a permutation of the indices that is
  ordered by the function \<open>stableSort\<close> gives to \<open>sort\<close> is the array of the model.
\<close>

lemma sortedIndices_unique:
  assumes cc: "consistentComparator (set xs) c"
    and "mset js = mset [0..<length xs]"
    and "sorted_wrt (\<lambda>i j. indexComparer xs c i j \<le> 0) js"
  shows "js = sortedIndices xs c"
proof (rule sorted_wrt_mset_unique [where R = "\<lambda>i j. indexComparer xs c i j \<le> 0"])
  fix x y assume a: "x \<in> set js" "y \<in> set js"
    "indexComparer xs c x y \<le> 0" "indexComparer xs c y x \<le> 0"
  have "set js = {0..<length xs}"
    using mset_eq_setD [OF assms(2)] by simp
  then have "x < length xs" "y < length xs" using a(1,2) by simp_all
  then show "x = y" using a(3,4) by (rule indexComparer_antisym [OF cc])
next
  show "sorted_wrt (\<lambda>i j. indexComparer xs c i j \<le> 0) js" by (rule assms(3))
  show "sorted_wrt (\<lambda>i j. indexComparer xs c i j \<le> 0) (sortedIndices xs c)"
    by (rule sortedIndices_sorted [OF cc])
  show "mset js = mset (sortedIndices xs c)"
    by (simp add: assms(2) sortedIndices_mset)
qed

lemma stableSort_heap:
  assumes "array < length h" and "h ! array = Elements xs"
  shows "stableSort h array c =
     Some (Suc (length h), h @ [Indices (sortedIndices xs c), Elements (stableSortList xs c)])"
  using assms
  by (simp add: stableSort_def alloc_def elementsAt_def indicesAt_def nth_append
      sortedIndices_def stableSortList_def Let_def)

lemma consistentComparator_key:
  fixes f :: "'a \<Rightarrow> int"
  shows "consistentComparator A (\<lambda>a b. f a - f b)"
  unfolding consistentComparator_def by auto

lemmas sort_eval = stableSortList_def sortedIndices_def arraySort_def indexComparer_def
  compareValues_def enumerate_indices Let_def

text \<open>No arrangement of \<open>0\<close>, \<open>1\<close>, \<open>2\<close> is ordered by the cyclic comparer.\<close>

lemma cyclicComparer_no_order:
  assumes "mset ys = mset [0, 1, 2 :: nat]"
  shows "\<not> sorted_wrt (\<lambda>a b. cyclicComparer a b \<le> 0) ys"
proof -
  have "length ys = length [0, 1, 2 :: nat]"
    using assms by (rule mset_eq_length)
  then have l: "length ys = 3" by simp
  then obtain a b c where ys: "ys = [a, b, c]"
    by (cases ys; cases "tl ys"; cases "tl (tl ys)") auto
  have "set ys = set [0, 1, 2 :: nat]"
    using assms by (rule mset_eq_setD)
  then have s: "set ys = {0, 1, 2}" by simp
  have "card (set ys) = length ys" unfolding s l by simp
  then have d: "distinct ys" by (rule card_distinct)
  have m: "a = 0 \<or> a = 1 \<or> a = 2" "b = 0 \<or> b = 1 \<or> b = 2" "c = 0 \<or> c = 1 \<or> c = 2"
  proof -
    have "a \<in> set ys" "b \<in> set ys" "c \<in> set ys" unfolding ys by simp_all
    then show "a = 0 \<or> a = 1 \<or> a = 2" "b = 0 \<or> b = 1 \<or> b = 2" "c = 0 \<or> c = 1 \<or> c = 2"
      unfolding s by simp_all
  qed
  have n: "a \<noteq> b" "a \<noteq> c" "b \<noteq> c"
    using d unfolding ys by auto
  have k: "cyclicComparer 0 2 = 1" "cyclicComparer 1 0 = 1" "cyclicComparer 2 1 = 1"
    by (simp_all add: cyclicComparer_def)
  have "cyclicComparer a b = 1 \<or> cyclicComparer a c = 1 \<or> cyclicComparer b c = 1"
    using m n k by (elim disjE) simp_all
  then show ?thesis
    unfolding ys by auto
qed

text \<open>
  C9, as the claim states it, fails: not every comparer orders the elements. Under the
  cyclic comparer no arrangement of \<open>0\<close>, \<open>1\<close>, \<open>2\<close> is ordered, whatever \<open>sort\<close> does, and
  the array that \<open>stableSort\<close> returns has \<open>0\<close> before \<open>2\<close> although the comparer puts \<open>2\<close>
  first.
\<close>

theorem stableSort_comparer_counterexample:
  "stableSort [Elements [0, 1, 2]] 0 cyclicComparer
     = Some (2, [Elements [0, 1, 2], Indices [0, 1, 2], Elements [0, 1, 2]])
   \<and> cyclicComparer 0 2 = 1
   \<and> \<not> sorted_wrt (\<lambda>a b. cyclicComparer a b \<le> 0) [0, 1, 2]"
  by (simp add: stableSort_def alloc_def elementsAt_def indicesAt_def sort_eval upt_rec
      cyclicComparer_def)

text \<open>
  C9, amended. Let \<open>array\<close> refer to an array of elements \<open>xs\<close>. \<open>stableSort\<close> returns a reference
  that was not in the heap before, to a new array, and leaves every array that was in the
  heap, the input among them, as it was. The new array lists \<open>xs\<close> along a permutation of
  its indices, so it is a permutation of \<open>xs\<close>. If the comparer is a consistent comparator
  on the elements, which is what \<open>sort\<close> asks of it, the new array is ordered by the
  comparer, and of two elements that compare equal the one that came first in \<open>xs\<close> comes
  first.
\<close>

theorem stableSort_sorts_stably:
  assumes "array < length h" and "h ! array = Elements xs"
  shows "\<exists>result h'. stableSort h array comparer = Some (result, h')
     \<and> length h \<le> result \<and> result < length h'
     \<and> (\<forall>r<length h. h' ! r = h ! r)
     \<and> h' ! result = Elements (stableSortList xs comparer)
     \<and> stableSortList xs comparer = map (\<lambda>i. xs ! i) (sortedIndices xs comparer)
     \<and> mset (sortedIndices xs comparer) = mset [0..<length xs]
     \<and> mset (stableSortList xs comparer) = mset xs
     \<and> (consistentComparator (set xs) comparer \<longrightarrow>
          sorted_wrt (\<lambda>a b. comparer a b \<le> 0) (stableSortList xs comparer)
          \<and> (\<forall>p q. p < q \<and> q < length xs
                 \<and> comparer (xs ! (sortedIndices xs comparer ! p))
                      (xs ! (sortedIndices xs comparer ! q)) = 0
               \<longrightarrow> sortedIndices xs comparer ! p < sortedIndices xs comparer ! q))"
proof -
  let ?h' = "h @ [Indices (sortedIndices xs comparer), Elements (stableSortList xs comparer)]"
  have 1: "stableSort h array comparer = Some (Suc (length h), ?h')"
    by (rule stableSort_heap [OF assms(1,2)])
  have 2: "length h \<le> Suc (length h)" "Suc (length h) < length ?h'"
    by simp_all
  have 3: "\<forall>r<length h. ?h' ! r = h ! r"
    by (simp add: nth_append)
  have 4: "?h' ! Suc (length h) = Elements (stableSortList xs comparer)"
    by (simp add: nth_append)
  have 5: "stableSortList xs comparer = map (\<lambda>i. xs ! i) (sortedIndices xs comparer)"
    by (simp add: stableSortList_def)
  have 6: "consistentComparator (set xs) comparer \<longrightarrow>
          sorted_wrt (\<lambda>a b. comparer a b \<le> 0) (stableSortList xs comparer)
          \<and> (\<forall>p q. p < q \<and> q < length xs
                 \<and> comparer (xs ! (sortedIndices xs comparer ! p))
                      (xs ! (sortedIndices xs comparer ! q)) = 0
               \<longrightarrow> sortedIndices xs comparer ! p < sortedIndices xs comparer ! q)"
    using sortedIndices_stable [of xs comparer] stableSortList_sorted [of xs comparer] by blast
  show ?thesis
    using 1 2 3 4 5 6 sortedIndices_mset [of xs comparer] stableSortList_mset [of xs comparer]
    by blast
qed

text \<open>Four pairs sorted by their first component: the pairs with equal keys keep their order.\<close>

theorem stableSort_sorts_stably_witness:
  "\<exists>h'. stableSort [Elements [(2::int, str ''b''), (1, str ''x''), (2, str ''a''), (1, str ''y'')]]
           0 (\<lambda>a b. fst a - fst b) = Some (2, h')
     \<and> h' ! 0 = Elements [(2, str ''b''), (1, str ''x''), (2, str ''a''), (1, str ''y'')]
     \<and> h' ! 2 = Elements [(1, str ''x''), (1, str ''y''), (2, str ''b''), (2, str ''a'')]
     \<and> sorted_wrt (\<lambda>a b. fst a - fst b \<le> 0)
          [(1::int, str ''x''), (1, str ''y''), (2, str ''b''), (2, str ''a'')]"
proof -
  let ?xs = "[(2::int, str ''b''), (1, str ''x''), (2, str ''a''), (1, str ''y'')]"
  let ?c = "\<lambda>a b :: int \<times> jsstring. fst a - fst b"
  have e: "stableSortList ?xs ?c = [(1, str ''x''), (1, str ''y''), (2, str ''b''), (2, str ''a'')]"
    by (simp add: sort_eval upt_rec str_def)
  have c: "consistentComparator (set ?xs) ?c"
    by (rule consistentComparator_key)
  have a: "0 < length [Elements ?xs]" "[Elements ?xs] ! 0 = Elements ?xs"
    by simp_all
  obtain result h' where r: "stableSort [Elements ?xs] 0 ?c = Some (result, h')"
      "\<forall>r<length [Elements ?xs]. h' ! r = [Elements ?xs] ! r"
      "h' ! result = Elements (stableSortList ?xs ?c)"
      "sorted_wrt (\<lambda>a b. ?c a b \<le> 0) (stableSortList ?xs ?c)"
    using stableSort_sorts_stably [OF a, of ?c] c by blast
  have "result = 2"
    using r(1) by (simp add: stableSort_heap [OF a])
  then show ?thesis
    using r unfolding e by auto
qed

section \<open>normalizeSlashes\<close>


lemma isSep_not_isSpace: "isSep c \<Longrightarrow> \<not> isSpace c"
  by (auto simp: char_eval)

lemma isSep_slash: "isSep slash"
  by (simp add: isSep_def)

lemma not_isSpace_slash: "\<not> isSpace slash"
  by (simp add: isSep_not_isSpace isSep_slash)

lemma replaceSeparators_match:
  assumes "sepAhead s"
  shows "replaceSeparators s = slash # replaceSeparators (dropWhile isSpace (tl (dropWhile isSpace s)))"
proof (cases s)
  case Nil
  then show ?thesis using assms by (simp add: sepAhead_def)
next
  case c: (Cons c cs)
  show ?thesis
  proof (cases "dropWhile isSpace (c # cs)")
    case Nil
    have "\<not> sepAhead (c # cs)" unfolding sepAhead_def Nil by simp
    then show ?thesis using assms c by simp
  next
    case (Cons d ds)
    have "sepAhead (c # cs) = isSep d" unfolding sepAhead_def Cons by simp
    then have d: "isSep d" using assms c by simp
    show ?thesis
      unfolding c by (subst replaceSeparators.simps) (simp only: Cons list.case d if_True list.sel)
  qed
qed

lemma replaceSeparators_copy:
  assumes "\<not> sepAhead (c # cs)"
  shows "replaceSeparators (c # cs) = c # replaceSeparators cs"
proof (cases "dropWhile isSpace (c # cs)")
  case Nil
  show ?thesis
    by (subst replaceSeparators.simps) (simp only: Nil list.case)
next
  case (Cons d ds)
  have "sepAhead (c # cs) = isSep d" unfolding sepAhead_def Cons by simp
  then have d: "\<not> isSep d" using assms by simp
  show ?thesis
    by (subst replaceSeparators.simps) (simp only: Cons list.case d if_False)
qed

lemma replaceSeparators_Nil: "replaceSeparators [] = []"
  by (simp add: replaceSeparators.simps)

lemma sepAhead_space: "isSpace c \<Longrightarrow> sepAhead (c # cs) = sepAhead cs"
  by (simp add: sepAhead_def)

lemma sepAhead_not_space: "\<not> isSpace c \<Longrightarrow> sepAhead (c # cs) = isSep c"
  by (simp add: sepAhead_def)

lemma sepAhead_Nil: "\<not> sepAhead []"
  by (simp add: sepAhead_def)

lemma sepAhead_dropWhile: "sepAhead (dropWhile isSpace s) = sepAhead s"
  by (simp add: sepAhead_def)

text \<open>Induction along the positions at which the replacement looks for a match.\<close>

lemma replaceSeparators_induct [case_names Nil match copy]:
  assumes "P []"
    and "\<And>s. sepAhead s \<Longrightarrow> P (dropWhile isSpace (tl (dropWhile isSpace s))) \<Longrightarrow> P s"
    and "\<And>c cs. \<not> sepAhead (c # cs) \<Longrightarrow> P cs \<Longrightarrow> P (c # cs)"
  shows "P s"
proof (induction s rule: length_induct)
  case (1 s)
  show ?case
  proof (cases "sepAhead s")
    case True
    have ne: "dropWhile isSpace s \<noteq> []"
    proof
      assume e: "dropWhile isSpace s = []"
      have "\<not> sepAhead s" unfolding sepAhead_def e by simp
      then show False using True by simp
    qed
    have "length (dropWhile isSpace (tl (dropWhile isSpace s))) < length s"
    proof -
      have "length (tl (dropWhile isSpace s)) < length (dropWhile isSpace s)"
        using ne by simp
      moreover have "length (dropWhile isSpace s) \<le> length s"
        by (rule length_dropWhile_le)
      moreover have "length (dropWhile isSpace (tl (dropWhile isSpace s)))
          \<le> length (tl (dropWhile isSpace s))"
        by (rule length_dropWhile_le)
      ultimately show ?thesis by linarith
    qed
    then have "P (dropWhile isSpace (tl (dropWhile isSpace s)))"
      using 1 by blast
    then show ?thesis by (rule assms(2) [OF True])
  next
    case False
    show ?thesis
    proof (cases s)
      case Nil
      then show ?thesis using assms(1) by simp
    next
      case (Cons c cs)
      have "P cs" using 1 Cons by simp
      then show ?thesis using False unfolding Cons by (rule assms(3) [rotated])
    qed
  qed
qed

lemma sepAhead_split:
  assumes "sepAhead s"
  shows "\<exists>d. isSep d \<and> s = takeWhile isSpace s @ d # tl (dropWhile isSpace s)"
proof -
  obtain d ds where d: "dropWhile isSpace s = d # ds" "isSep d"
    using assms by (auto simp: sepAhead_def split: list.splits)
  have "s = takeWhile isSpace s @ dropWhile isSpace s" by simp
  then have "s = takeWhile isSpace s @ d # tl (dropWhile isSpace s)"
    unfolding d by simp
  then show ?thesis using d(2) by blast
qed

lemma filter_takeWhile_space: "filter (\<lambda>c. \<not> isSpace c) (takeWhile isSpace s) = []"
  by (induction s) auto

lemma filter_sep_takeWhile_space: "filter isSep (takeWhile isSpace s) = []"
  by (induction s) (auto simp: isSep_not_isSpace)

lemma filter_nonspace_dropWhile:
  "filter (\<lambda>c. \<not> isSpace c) (dropWhile isSpace s) = filter (\<lambda>c. \<not> isSpace c) s"
  by (induction s) auto

lemma filter_sep_dropWhile: "filter isSep (dropWhile isSpace s) = filter isSep s"
  by (induction s) (auto simp: isSep_not_isSpace)

lemma replaceSeparators_nonspace:
  "filter (\<lambda>c. \<not> isSpace c) (replaceSeparators s)
     = map (\<lambda>c. if isSep c then slash else c) (filter (\<lambda>c. \<not> isSpace c) s)"
proof (induction s rule: replaceSeparators_induct)
  case Nil
  then show ?case by (simp add: replaceSeparators_Nil)
next
  case (match s)
  obtain d where d: "isSep d" "s = takeWhile isSpace s @ d # tl (dropWhile isSpace s)"
    using sepAhead_split [OF match(1)] by blast
  have "filter (\<lambda>c. \<not> isSpace c) s
      = filter (\<lambda>c. \<not> isSpace c) (takeWhile isSpace s @ d # tl (dropWhile isSpace s))"
    using d(2) by simp
  also have "\<dots> = d # filter (\<lambda>c. \<not> isSpace c) (tl (dropWhile isSpace s))"
    by (simp add: filter_takeWhile_space isSep_not_isSpace d(1))
  finally show ?case
    using match(2) d(1)
    by (simp add: replaceSeparators_match [OF match(1)] filter_nonspace_dropWhile
        not_isSpace_slash)
next
  case (copy c cs)
  then show ?case
    by (cases "isSpace c") (auto simp: replaceSeparators_copy sepAhead_not_space)
qed

lemma replaceSeparators_count:
  "length (filter (\<lambda>c. c = slash) (replaceSeparators s)) = length (filter isSep s)"
proof (induction s rule: replaceSeparators_induct)
  case Nil
  then show ?case by (simp add: replaceSeparators_Nil)
next
  case (match s)
  obtain d where d: "isSep d" "s = takeWhile isSpace s @ d # tl (dropWhile isSpace s)"
    using sepAhead_split [OF match(1)] by blast
  have "filter isSep s = filter isSep (takeWhile isSpace s @ d # tl (dropWhile isSpace s))"
    using d(2) by simp
  also have "\<dots> = d # filter isSep (tl (dropWhile isSpace s))"
    by (simp add: filter_sep_takeWhile_space d(1))
  finally show ?case
    using match(2)
    by (simp add: replaceSeparators_match [OF match(1)] filter_sep_dropWhile)
next
  case (copy c cs)
  have "c \<noteq> slash \<and> \<not> isSep c"
  proof (cases "isSpace c")
    case True
    then show ?thesis using isSep_not_isSpace not_isSpace_slash by auto
  next
    case False
    then show ?thesis using copy(1) isSep_slash by (auto simp: sepAhead_not_space)
  qed
  then show ?case
    using copy by (simp add: replaceSeparators_copy)
qed

lemma replaceSeparators_no_backslash: "backslash \<notin> set (replaceSeparators s)"
proof (induction s rule: replaceSeparators_induct)
  case Nil
  then show ?case by (simp add: replaceSeparators_Nil)
next
  case (match s)
  then show ?case
    by (simp add: replaceSeparators_match [OF match(1)] slash_def backslash_def)
next
  case (copy c cs)
  have "c \<noteq> backslash"
  proof (cases "isSpace c")
    case True
    then show ?thesis using isSep_not_isSpace [of backslash] by (auto simp: isSep_def)
  next
    case False
    then show ?thesis using copy(1) by (auto simp: sepAhead_not_space isSep_def)
  qed
  then show ?case
    using copy by (simp add: replaceSeparators_copy)
qed

lemma spaceBySlash_Cons:
  "spaceBySlash (a # ys) =
     ((ys \<noteq> [] \<and> ((a = slash \<and> isSpace (hd ys)) \<or> (isSpace a \<and> hd ys = slash)))
      \<or> spaceBySlash ys)"
  by (cases ys) simp_all

lemma spaceBySlash_append1: "spaceBySlash xs \<Longrightarrow> spaceBySlash (xs @ ys)"
  by (induction xs rule: spaceBySlash.induct) auto

lemma spaceBySlash_append2: "spaceBySlash ys \<Longrightarrow> spaceBySlash (xs @ ys)"
  by (induction xs) (auto simp: spaceBySlash_Cons)

lemma sepAhead_slash: "sepAhead (slash # cs)"
  by (simp add: sepAhead_def not_isSpace_slash isSep_slash)

lemma replaceSeparators_head_not_slash:
  assumes "\<not> sepAhead s"
  shows "replaceSeparators s = [] \<or> hd (replaceSeparators s) \<noteq> slash"
proof (cases s)
  case Nil
  then show ?thesis by (simp add: replaceSeparators_Nil)
next
  case (Cons c cs)
  have "c \<noteq> slash" using assms Cons sepAhead_slash by auto
  then show ?thesis
    using assms unfolding Cons by (simp add: replaceSeparators_copy)
qed

lemma replaceSeparators_head_not_space:
  assumes "s = [] \<or> \<not> isSpace (hd s)"
  shows "replaceSeparators s = [] \<or> \<not> isSpace (hd (replaceSeparators s))"
proof (cases s)
  case Nil
  then show ?thesis by (simp add: replaceSeparators_Nil)
next
  case (Cons c cs)
  show ?thesis
  proof (cases "sepAhead s")
    case True
    then show ?thesis by (simp add: replaceSeparators_match not_isSpace_slash)
  next
    case False
    then show ?thesis
      using assms unfolding Cons by (simp add: replaceSeparators_copy)
  qed
qed

lemma dropWhile_head: "dropWhile P s = [] \<or> \<not> P (hd (dropWhile P s))"
  using hd_dropWhile [of P s] by blast

lemma replaceSeparators_no_spaceBySlash: "\<not> spaceBySlash (replaceSeparators s)"
proof (induction s rule: replaceSeparators_induct)
  case Nil
  then show ?case by (simp add: replaceSeparators_Nil)
next
  case (match s)
  let ?r = "dropWhile isSpace (tl (dropWhile isSpace s))"
  have "replaceSeparators ?r = [] \<or> \<not> isSpace (hd (replaceSeparators ?r))"
    by (rule replaceSeparators_head_not_space) (rule dropWhile_head)
  then show ?case
    using match(2)
    by (auto simp: replaceSeparators_match [OF match(1)] spaceBySlash_Cons not_isSpace_slash)
next
  case (copy c cs)
  have 1: "c \<noteq> slash" using copy(1) sepAhead_slash by auto
  have 2: "isSpace c \<Longrightarrow> replaceSeparators cs = [] \<or> hd (replaceSeparators cs) \<noteq> slash"
    using copy(1) by (intro replaceSeparators_head_not_slash) (simp add: sepAhead_space)
  show ?case
    using copy(2) 1 2 by (auto simp: replaceSeparators_copy [OF copy(1)] spaceBySlash_Cons)
qed

lemma trim_decomp:
  "s = takeWhile isSpace s @ trim s @ rev (takeWhile isSpace (rev (dropWhile isSpace s)))"
proof -
  let ?u = "dropWhile isSpace s"
  have "rev (takeWhile isSpace (rev ?u) @ dropWhile isSpace (rev ?u))
      = rev (dropWhile isSpace (rev ?u)) @ rev (takeWhile isSpace (rev ?u))"
    by (rule rev_append)
  moreover have "takeWhile isSpace (rev ?u) @ dropWhile isSpace (rev ?u) = rev ?u"
    by (rule takeWhile_dropWhile_id)
  ultimately have "rev (rev ?u)
      = rev (dropWhile isSpace (rev ?u)) @ rev (takeWhile isSpace (rev ?u))"
    by (simp only:)
  then have "?u = trim s @ rev (takeWhile isSpace (rev ?u))"
    by (simp only: rev_rev_ident trim_def)
  moreover have "s = takeWhile isSpace s @ ?u" by simp
  ultimately show ?thesis by simp
qed

lemma set_takeWhile_space: "c \<in> set (takeWhile isSpace s) \<Longrightarrow> isSpace c"
  by (rule set_takeWhileD [THEN conjunct2])

lemma filter_takeWhile_none:
  assumes "\<And>c. isSpace c \<Longrightarrow> \<not> P c"
  shows "filter P (takeWhile isSpace s) = []"
  using assms by (induction s) auto

lemma filter_trim:
  assumes "\<And>c. isSpace c \<Longrightarrow> \<not> P c"
  shows "filter P (trim s) = filter P s"
proof -
  have "filter P s = filter P (takeWhile isSpace s @ trim s
      @ rev (takeWhile isSpace (rev (dropWhile isSpace s))))"
    using trim_decomp [of s] by simp
  also have "\<dots> = filter P (trim s)"
    using assms by (simp add: filter_takeWhile_none rev_filter [symmetric])
  finally show ?thesis by simp
qed

lemma set_trim: "set (trim s) \<subseteq> set s"
proof -
  have "set s = set (takeWhile isSpace s @ trim s
      @ rev (takeWhile isSpace (rev (dropWhile isSpace s))))"
    using trim_decomp [of s] by simp
  then show ?thesis by auto
qed

lemma spaceBySlash_trim: "\<not> spaceBySlash s \<Longrightarrow> \<not> spaceBySlash (trim s)"
proof -
  assume a: "\<not> spaceBySlash s"
  have "spaceBySlash (trim s) \<Longrightarrow> spaceBySlash (takeWhile isSpace s @ trim s
      @ rev (takeWhile isSpace (rev (dropWhile isSpace s))))"
    by (intro spaceBySlash_append2 spaceBySlash_append1)
  then show ?thesis using a trim_decomp [of s] by auto
qed

lemma trimmed_trim: "trimmed (trim s)"
proof (cases "trim s = []")
  case True
  then show ?thesis by (simp add: trimmed_def)
next
  case False
  let ?u = "dropWhile isSpace s"
  let ?d = "dropWhile isSpace (rev ?u)"
  have t: "trim s = rev ?d" by (simp add: trim_def)
  have ne: "?d \<noteq> []" using False t by simp
  have l: "\<not> isSpace (last (trim s))"
    using hd_dropWhile [OF ne] ne unfolding t by (simp add: last_rev)
  have u: "?u = trim s @ rev (takeWhile isSpace (rev ?u))"
    using trim_decomp [of s] by (metis append_eq_append_conv takeWhile_dropWhile_id)
  have une: "?u \<noteq> []"
  proof
    assume "?u = []"
    then have "trim s = []" by (simp only: trim_def rev.simps dropWhile.simps)
    then show False using False by simp
  qed
  have "hd ?u = hd (trim s)"
    using False by (subst u) simp
  then have "\<not> isSpace (hd (trim s))"
    using hd_dropWhile [OF une] by simp
  then show ?thesis using l by (simp add: trimmed_def)
qed

lemma trim_trimmed: "trimmed s \<Longrightarrow> trim s = s"
proof (cases s)
  case Nil
  then show ?thesis by (simp add: trim_def)
next
  case (Cons c cs)
  assume "trimmed s"
  then have h: "\<not> isSpace (hd s)" and l: "\<not> isSpace (last s)"
    using Cons by (auto simp: trimmed_def)
  have 1: "dropWhile isSpace s = s" using h Cons by simp
  have "s = butlast s @ [last s]" using Cons by simp
  then have "rev s = rev (butlast s @ [last s])" by simp
  then have r: "rev s = last s # rev (butlast s)" by simp
  have 2: "dropWhile isSpace (rev s) = rev s"
    by (subst (1 2) r) (simp add: l)
  show ?thesis by (simp add: trim_def 1 2)
qed

text \<open>The pieces between the separators of a string.\<close>

lemma joinSlash_Cons:
  "joinSlash (n # ns) = (if ns = [] then n else n @ slash # joinSlash ns)"
  by (cases ns) simp_all

lemma separatorPieces_not_Nil: "separatorPieces s \<noteq> []"
  by (induction s) auto

lemma separatorPieces_no_sep:
  assumes "\<forall>c\<in>set s. \<not> isSep c"
  shows "separatorPieces s = [s]"
  using assms by (induction s) auto

lemma separatorPieces_first:
  assumes "\<forall>c\<in>set p. \<not> isSep c" and "isSep d"
  shows "separatorPieces (p @ d # rest) = p # separatorPieces rest"
  using assms by (induction p) auto

lemma first_separator:
  assumes "\<exists>c\<in>set s. isSep c"
  shows "\<exists>p d rest. s = p @ d # rest \<and> (\<forall>c\<in>set p. \<not> isSep c) \<and> isSep d"
  using assms split_list_first_prop [of s isSep] by blast

lemma replaceSeparators_no_sep:
  assumes "\<forall>c\<in>set s. \<not> isSep c"
  shows "replaceSeparators s = s"
  using assms
proof (induction s)
  case Nil
  show ?case by (rule replaceSeparators_Nil)
next
  case (Cons c cs)
  have "\<not> sepAhead (c # cs)"
  proof
    assume "sepAhead (c # cs)"
    then obtain d where "isSep d" "c # cs = takeWhile isSpace (c # cs) @ d # tl (dropWhile isSpace (c # cs))"
      using sepAhead_split by blast
    then have "d \<in> set (c # cs)"
      by (metis in_set_conv_decomp)
    then show False using Cons.prems \<open>isSep d\<close> by blast
  qed
  then show ?case using Cons by (simp add: replaceSeparators_copy)
qed

lemma dropWhile_replaceSeparators:
  "dropWhile isSpace (replaceSeparators s) = replaceSeparators (dropWhile isSpace s)"
proof (induction s)
  case Nil
  show ?case by (simp add: replaceSeparators_Nil)
next
  case (Cons c cs)
  show ?case
  proof (cases "isSpace c")
    case sp: True
    show ?thesis
    proof (cases "sepAhead (c # cs)")
      case True
      then have s2: "sepAhead (dropWhile isSpace cs)"
        using sp by (simp add: sepAhead_space sepAhead_dropWhile)
      have "replaceSeparators (dropWhile isSpace cs)
          = slash # replaceSeparators (dropWhile isSpace (tl (dropWhile isSpace cs)))"
        using replaceSeparators_match [OF s2] by simp
      then show ?thesis
        using sp by (simp add: replaceSeparators_match [OF True] not_isSpace_slash)
    next
      case False
      then show ?thesis
        using sp Cons.IH by (simp add: replaceSeparators_copy)
    qed
  next
    case nsp: False
    show ?thesis
    proof (cases "sepAhead (c # cs)")
      case True
      then show ?thesis
        using nsp by (simp add: replaceSeparators_match [OF True] not_isSpace_slash)
    next
      case False
      then show ?thesis
        using nsp by (simp add: replaceSeparators_copy)
    qed
  qed
qed

lemma trim_rstrip: "trim s = rstrip (dropWhile isSpace s)"
  by (simp add: trim_def rstrip_def)

lemma rstrip_all_space: "\<forall>c\<in>set s. isSpace c \<Longrightarrow> rstrip s = []"
  by (simp add: rstrip_def)

lemma rstrip_Cons: "\<not> (\<forall>c\<in>set (c # u). isSpace c) \<Longrightarrow> rstrip (c # u) = c # rstrip u"
proof -
  assume a: "\<not> (\<forall>c\<in>set (c # u). isSpace c)"
  show ?thesis
  proof (cases "\<forall>x\<in>set u. isSpace x")
    case True
    then have c: "\<not> isSpace c" using a by auto
    have "dropWhile isSpace (rev u @ [c]) = [c]"
      using True c by (simp add: dropWhile_append)
    then show ?thesis using True by (simp add: rstrip_def)
  next
    case False
    then obtain x where "x \<in> set (rev u)" "\<not> isSpace x" by auto
    then have "dropWhile isSpace (rev u @ [c]) = dropWhile isSpace (rev u) @ [c]"
      by (rule dropWhile_append1)
    then show ?thesis by (simp add: rstrip_def)
  qed
qed

lemma rstrip_append:
  assumes "\<not> (\<forall>c\<in>set b. isSpace c)"
  shows "rstrip (a @ b) = a @ rstrip b"
proof (induction a)
  case Nil
  show ?case by simp
next
  case (Cons x a)
  have "\<not> (\<forall>c\<in>set (x # a @ b). isSpace c)" using assms by auto
  then have "rstrip (x # a @ b) = x # rstrip (a @ b)" by (rule rstrip_Cons)
  then show ?case using Cons by simp
qed

lemma rstrip_id: "s = [] \<or> \<not> isSpace (last s) \<Longrightarrow> rstrip s = s"
  by (cases s rule: rev_cases) (auto simp: rstrip_def)

lemma sepAhead_all_space:
  assumes "\<forall>c\<in>set u. \<not> isSep c" and "isSep d"
  shows "sepAhead (u @ d # rest) = (\<forall>c\<in>set u. isSpace c)"
  using assms by (induction u) (auto simp: sepAhead_def isSep_not_isSpace)

lemma dropWhile_space_append:
  assumes "\<forall>c\<in>set u. isSpace c" and "\<not> isSpace d"
  shows "dropWhile isSpace (u @ d # rest) = d # rest"
  using assms by (induction u) auto

lemma replaceSeparators_piece:
  assumes "\<forall>c\<in>set u. \<not> isSep c" and "isSep d"
  shows "replaceSeparators (u @ d # rest)
    = rstrip u @ slash # replaceSeparators (dropWhile isSpace rest)"
  using assms
proof (induction u)
  case Nil
  have "sepAhead (d # rest)" using Nil(2) by (simp add: sepAhead_def isSep_not_isSpace)
  then show ?case
    using Nil(2) by (simp add: replaceSeparators_match isSep_not_isSpace rstrip_def)
next
  case (Cons c u)
  have u: "\<forall>c\<in>set u. \<not> isSep c" using Cons.prems(1) by simp
  show ?case
  proof (cases "\<forall>x\<in>set (c # u). isSpace x")
    case True
    have s: "sepAhead ((c # u) @ d # rest)"
      using sepAhead_all_space [OF Cons.prems] True by blast
    have "dropWhile isSpace ((c # u) @ d # rest) = d # rest"
      by (rule dropWhile_space_append) (use True Cons.prems(2) isSep_not_isSpace in auto)
    then show ?thesis
      using replaceSeparators_match [OF s] True by (simp add: rstrip_all_space)
  next
    case False
    have s: "\<not> sepAhead (c # (u @ d # rest))"
      using sepAhead_all_space [OF Cons.prems, of rest] False by simp
    show ?thesis
      using Cons.IH [OF u Cons.prems(2)] False
      by (simp add: replaceSeparators_copy [OF s] rstrip_Cons)
  qed
qed

lemma replaceSeparators_pieces:
  "replaceSeparators (dropWhile isSpace s)
    = joinSlash (map trim (butlast (separatorPieces s))
        @ [dropWhile isSpace (last (separatorPieces s))])"
proof (induction s rule: length_induct)
  case (1 s)
  show ?case
  proof (cases "\<exists>c\<in>set s. isSep c")
    case False
    then have n: "\<forall>c\<in>set s. \<not> isSep c" by blast
    have "\<forall>c\<in>set (dropWhile isSpace s). \<not> isSep c"
      using n by (meson set_dropWhileD)
    then show ?thesis
      by (simp add: separatorPieces_no_sep [OF n] replaceSeparators_no_sep)
  next
    case True
    then obtain p d rest where s: "s = p @ d # rest" and p: "\<forall>c\<in>set p. \<not> isSep c"
      and d: "isSep d"
      using first_separator by blast
    let ?ps = "separatorPieces rest"
    have ih: "replaceSeparators (dropWhile isSpace rest)
        = joinSlash (map trim (butlast ?ps) @ [dropWhile isSpace (last ?ps)])"
      using 1 s by simp
    have sp: "separatorPieces s = p # ?ps"
      unfolding s by (rule separatorPieces_first [OF p d])
    have ne: "?ps \<noteq> []" by (rule separatorPieces_not_Nil)
    have "replaceSeparators (dropWhile isSpace s)
        = trim p @ slash # replaceSeparators (dropWhile isSpace rest)"
    proof (cases "\<forall>c\<in>set p. isSpace c")
      case True
      have "dropWhile isSpace s = d # rest"
        unfolding s by (rule dropWhile_space_append) (use True d isSep_not_isSpace in auto)
      moreover have "dropWhile isSpace p = []" using True by simp
      then have "trim p = []" by (simp only: trim_def rev.simps dropWhile.simps)
      ultimately show ?thesis
        using replaceSeparators_piece [of "[]" d rest] d by (simp add: rstrip_def)
    next
      case False
      then obtain x where "x \<in> set p" "\<not> isSpace x" by auto
      then have "dropWhile isSpace s = dropWhile isSpace p @ d # rest"
        unfolding s by (rule dropWhile_append1)
      moreover have "\<forall>c\<in>set (dropWhile isSpace p). \<not> isSep c"
        using p by (meson set_dropWhileD)
      ultimately show ?thesis
        using replaceSeparators_piece [of "dropWhile isSpace p" d rest] d
        by (simp add: trim_rstrip)
    qed
    also have "\<dots> = joinSlash (trim p # (map trim (butlast ?ps) @ [dropWhile isSpace (last ?ps)]))"
      unfolding ih by (simp add: joinSlash_Cons)
    finally show ?thesis
      unfolding sp using ne by simp
  qed
qed

lemma joinSlash_snoc: "ys \<noteq> [] \<Longrightarrow> joinSlash (ys @ [z]) = joinSlash ys @ slash # z"
  by (induction ys rule: joinSlash.induct) (auto simp: joinSlash_Cons)

lemma rstrip_joinSlash:
  assumes "z = [] \<or> \<not> isSpace (hd z)"
  shows "rstrip (joinSlash (ys @ [z])) = joinSlash (ys @ [rstrip z])"
proof (cases "z = []")
  case True
  show ?thesis
  proof (cases "ys = []")
    case ys: True
    then show ?thesis using True by (simp add: rstrip_def)
  next
    case False
    then have "joinSlash (ys @ [z]) = joinSlash ys @ [slash]"
      using True by (simp add: joinSlash_snoc)
    then show ?thesis
      using True by (simp add: rstrip_id not_isSpace_slash)
  qed
next
  case False
  then have z: "\<not> (\<forall>c\<in>set z. isSpace c)"
    using assms by (cases z) auto
  show ?thesis
  proof (cases "ys = []")
    case True
    then show ?thesis by simp
  next
    case ys: False
    have "\<not> (\<forall>c\<in>set (slash # z). isSpace c)" using z by auto
    then show ?thesis
      using ys z by (simp add: joinSlash_snoc rstrip_append rstrip_Cons)
  qed
qed

text \<open>
  \<open>normalizeSlashes\<close> cuts its argument at every separator, trims every piece and joins
  the pieces with \<open>/\<close>.
\<close>

lemma normalizeSlashes_pieces:
  "normalizeSlashes path = joinSlash (map trim (separatorPieces path))"
proof -
  let ?ps = "separatorPieces path"
  have ne: "?ps \<noteq> []" by (rule separatorPieces_not_Nil)
  have "normalizeSlashes path = rstrip (replaceSeparators (dropWhile isSpace path))"
    by (simp add: normalizeSlashes_def trim_rstrip dropWhile_replaceSeparators)
  also have "\<dots> = rstrip (joinSlash (map trim (butlast ?ps) @ [dropWhile isSpace (last ?ps)]))"
    by (simp only: replaceSeparators_pieces)
  also have "\<dots> = joinSlash (map trim (butlast ?ps) @ [rstrip (dropWhile isSpace (last ?ps))])"
    by (rule rstrip_joinSlash) (rule dropWhile_head)
  also have "\<dots> = joinSlash (map trim (butlast ?ps @ [last ?ps]))"
    by (simp add: trim_rstrip)
  finally show ?thesis using ne by simp
qed


text \<open>
  C3, as the claim states it, fails: the pattern has one separator in it, so each
  separator of a run is replaced by its own \<open>/\<close>, and a run is not collapsed. The roots
  \<open>//server/share/\<close> and \<open>scheme://host/\<close> of \<open>rootRegExp\<close> rest on this.
\<close>

theorem normalizeSlashes_run_counterexample:
  "normalizeSlashes (str ''a//b'') = str ''a//b''
   \<and> normalizeSlashes (str ''a//b'') ! 1 = slash
   \<and> normalizeSlashes (str ''a//b'') ! 2 = slash"
  by (simp add: path_eval)

text \<open>
  C3, amended. \<open>normalizeSlashes\<close> returns the pieces of its argument between the separator
  characters, each piece trimmed of white space, joined by \<open>/\<close>: every separator becomes one
  \<open>/\<close> and takes the white space directly around it along, white space inside a piece
  stays, and the string as a whole is trimmed. A run of separators is not collapsed, the
  empty pieces stay: the result has as many \<open>/\<close> as the argument has separators. It has no
  backslash, no white space next to a \<open>/\<close> and none at either end; white space left out,
  it is the argument with each separator turned into \<open>/\<close>.
\<close>

theorem normalizeSlashes_separators:
  "normalizeSlashes path = joinSlash (map trim (separatorPieces path))
   \<and> backslash \<notin> set (normalizeSlashes path)
   \<and> length (filter (\<lambda>c. c = slash) (normalizeSlashes path)) = length (filter isSep path)
   \<and> \<not> spaceBySlash (normalizeSlashes path)
   \<and> trimmed (normalizeSlashes path)
   \<and> filter (\<lambda>c. \<not> isSpace c) (normalizeSlashes path)
       = map (\<lambda>c. if isSep c then slash else c) (filter (\<lambda>c. \<not> isSpace c) path)"
proof -
  have 0: "normalizeSlashes path = joinSlash (map trim (separatorPieces path))"
    by (rule normalizeSlashes_pieces)
  have 1: "backslash \<notin> set (normalizeSlashes path)"
    using set_trim [of "replaceSeparators path"] replaceSeparators_no_backslash [of path]
    by (auto simp: normalizeSlashes_def)
  have 2: "length (filter (\<lambda>c. c = slash) (normalizeSlashes path)) = length (filter isSep path)"
    unfolding normalizeSlashes_def
    by (subst filter_trim) (auto simp: not_isSpace_slash replaceSeparators_count)
  have 3: "\<not> spaceBySlash (normalizeSlashes path)"
    unfolding normalizeSlashes_def
    by (rule spaceBySlash_trim) (rule replaceSeparators_no_spaceBySlash)
  have 4: "trimmed (normalizeSlashes path)"
    unfolding normalizeSlashes_def by (rule trimmed_trim)
  have 5: "filter (\<lambda>c. \<not> isSpace c) (normalizeSlashes path)
       = map (\<lambda>c. if isSep c then slash else c) (filter (\<lambda>c. \<not> isSpace c) path)"
    unfolding normalizeSlashes_def
    by (subst filter_trim) (simp_all add: replaceSeparators_nonspace)
  show ?thesis using 0 1 2 3 4 5 by blast
qed

text \<open>
  On \<open>" a \ / b c/ "\<close> the pieces are \<open>" a "\<close>, \<open>" "\<close>, \<open>" b c"\<close> and \<open>" "\<close>, and the result is
  \<open>"a//b c/"\<close>.
\<close>

theorem normalizeSlashes_separators_witness:
  "separatorPieces (str '' a '' @ backslash # str '' / b c/ '')
     = [str '' a '', str '' '', str '' b c'', str '' '']
   \<and> joinSlash (map trim (separatorPieces (str '' a '' @ backslash # str '' / b c/ '')))
     = str ''a//b c/''
   \<and> normalizeSlashes (str '' a '' @ backslash # str '' / b c/ '') = str ''a//b c/''
   \<and> (backslash \<notin> set (str ''a//b c/'')
     \<and> length (filter (\<lambda>c. c = slash) (str ''a//b c/''))
         = length (filter isSep (str '' a '' @ backslash # str '' / b c/ ''))
     \<and> \<not> spaceBySlash (str ''a//b c/'')
     \<and> trimmed (str ''a//b c/''))"
proof -
  let ?x = "str '' a '' @ backslash # str '' / b c/ ''"
  have p: "separatorPieces ?x = [str '' a '', str '' '', str '' b c'', str '' '']"
    by (simp add: char_eval)
  have e: "normalizeSlashes ?x = str ''a//b c/''"
    by (simp add: path_eval)
  note th = normalizeSlashes_separators [of ?x]
  have j: "joinSlash (map trim (separatorPieces ?x)) = str ''a//b c/''"
    by (simp only: th [THEN conjunct1, symmetric] e)
  have r: "backslash \<notin> set (str ''a//b c/'')
     \<and> length (filter (\<lambda>c. c = slash) (str ''a//b c/'')) = length (filter isSep ?x)
     \<and> \<not> spaceBySlash (str ''a//b c/'')
     \<and> trimmed (str ''a//b c/'')"
    using th [THEN conjunct2] unfolding e by simp
  show ?thesis using p j e r by blast
qed

section \<open>Paths made of a root and names\<close>


lemma splitSlashes_no_slash:
  assumes "slash \<notin> set s"
  shows "splitSlashes s = [s]"
proof -
  have d: "dropWhile (\<lambda>c. c \<noteq> slash) s = []"
    using assms by (induction s) auto
  show ?thesis
    by (subst splitSlashes.simps) (simp only: d list.case)
qed

lemma takeWhile_not_slash_append:
  assumes "slash \<notin> set x"
  shows "takeWhile (\<lambda>c. c \<noteq> slash) (x @ slash # y) = x"
  using assms by (induction x) auto

lemma dropWhile_not_slash_append:
  assumes "slash \<notin> set x"
  shows "dropWhile (\<lambda>c. c \<noteq> slash) (x @ slash # y) = slash # y"
  using assms by (induction x) auto

lemma splitSlashes_piece:
  assumes "slash \<notin> set x"
  shows "splitSlashes (x @ slash # y) = x # splitSlashes (dropWhile (\<lambda>c. c = slash) y)"
  by (subst splitSlashes.simps)
    (simp only: takeWhile_not_slash_append [OF assms] dropWhile_not_slash_append [OF assms]
      list.case)

lemma isName_no_slash: "isName n \<Longrightarrow> slash \<notin> set n"
  by (auto simp: isName_def isSep_def)

lemma isName_hd: "isName n \<Longrightarrow> hd n \<noteq> slash \<and> \<not> isSep (hd n) \<and> \<not> isSpace (hd n)"
  by (cases n) (auto simp: isName_def isSep_def trimmed_def)

lemma isName_last: "isName n \<Longrightarrow> last n \<noteq> slash \<and> \<not> isSep (last n) \<and> \<not> isSpace (last n)"
  by (cases n rule: rev_cases) (auto simp: isName_def isSep_def trimmed_def)

lemma joinSlash_names_hd:
  assumes "\<forall>n\<in>set ns. isName n" and "ns \<noteq> []"
  shows "joinSlash ns \<noteq> [] \<and> hd (joinSlash ns) = hd (hd ns)"
proof (cases ns)
  case Nil
  then show ?thesis using assms(2) by simp
next
  case (Cons n ns')
  have "n \<noteq> []" using assms(1) Cons by (simp add: isName_def)
  then show ?thesis unfolding Cons by (simp add: joinSlash_Cons)
qed

lemma splitSlashes_joinSlash:
  assumes "\<forall>n\<in>set ns. isName n" and "ns \<noteq> []"
  shows "splitSlashes (joinSlash ns) = ns"
  using assms
proof (induction ns)
  case Nil
  then show ?case by simp
next
  case (Cons n ns)
  have n: "slash \<notin> set n" using Cons.prems(1) by (simp add: isName_no_slash)
  show ?case
  proof (cases "ns = []")
    case True
    then show ?thesis by (simp add: splitSlashes_no_slash [OF n])
  next
    case False
    have h: "joinSlash ns \<noteq> [] \<and> hd (joinSlash ns) = hd (hd ns)"
      by (rule joinSlash_names_hd) (use Cons.prems False in simp_all)
    have "hd ns \<in> set ns" using False by simp
    then have "hd (hd ns) \<noteq> slash" using Cons.prems(1) isName_hd by auto
    then have d: "dropWhile (\<lambda>c. c = slash) (joinSlash ns) = joinSlash ns"
      using h by (cases "joinSlash ns") auto
    have "splitSlashes (joinSlash ns) = ns"
      using Cons.IH Cons.prems False by simp
    then show ?thesis
      using False by (simp add: joinSlash_Cons splitSlashes_piece [OF n] d)
  qed
qed

lemma joinSlash_append:
  assumes "xs \<noteq> []" and "ys \<noteq> []"
  shows "joinSlash (xs @ ys) = joinSlash xs @ slash # joinSlash ys"
  using assms by (induction xs rule: joinSlash.induct) (auto simp: joinSlash_Cons)

lemma reduceLoop_plain:
  assumes "\<forall>n\<in>set ns. n \<noteq> str ''.'' \<and> n \<noteq> str ''..''"
  shows "reduceLoop acc ns = acc @ ns"
  using assms by (induction ns arbitrary: acc) auto

lemma reduceLoop_append:
  assumes "\<forall>n\<in>set ns. n \<noteq> str ''.'' \<and> n \<noteq> str ''..''"
  shows "reduceLoop acc (ns @ rest) = reduceLoop (acc @ ns) rest"
  using assms by (induction ns arbitrary: acc) auto



lemma spaceBySlash_append:
  "spaceBySlash (xs @ ys) =
     (spaceBySlash xs \<or> spaceBySlash ys
      \<or> (xs \<noteq> [] \<and> ys \<noteq> []
          \<and> ((last xs = slash \<and> isSpace (hd ys)) \<or> (isSpace (last xs) \<and> hd ys = slash))))"
proof (induction xs)
  case Nil
  show ?case by simp
next
  case (Cons a xs)
  show ?case
  proof (cases "xs = []")
    case True
    then show ?thesis by (auto simp: spaceBySlash_Cons)
  next
    case False
    then show ?thesis
      using Cons.IH by (auto simp: spaceBySlash_Cons hd_append)
  qed
qed

lemma doubleSlash_Cons:
  "doubleSlash (a # ys) = ((ys \<noteq> [] \<and> a = slash \<and> hd ys = slash) \<or> doubleSlash ys)"
  by (cases ys) simp_all

lemma doubleSlash_append:
  "doubleSlash (xs @ ys) =
     (doubleSlash xs \<or> doubleSlash ys
      \<or> (xs \<noteq> [] \<and> ys \<noteq> [] \<and> last xs = slash \<and> hd ys = slash))"
proof (induction xs)
  case Nil
  show ?case by simp
next
  case (Cons a xs)
  show ?case
  proof (cases "xs = []")
    case True
    then show ?thesis by (auto simp: doubleSlash_Cons)
  next
    case False
    then show ?thesis
      using Cons.IH by (auto simp: doubleSlash_Cons hd_append)
  qed
qed

lemma no_slash_no_spaceBySlash: "slash \<notin> set s \<Longrightarrow> \<not> spaceBySlash s"
  by (induction s rule: spaceBySlash.induct) auto

lemma no_slash_no_doubleSlash: "slash \<notin> set s \<Longrightarrow> \<not> doubleSlash s"
  by (induction s rule: doubleSlash.induct) auto

lemma joinSlash_names_last:
  assumes "\<forall>n\<in>set ns. isName n" and "ns \<noteq> []"
  shows "joinSlash ns \<noteq> [] \<and> last (joinSlash ns) = last (last ns)"
  using assms
proof (induction ns rule: joinSlash.induct)
  case 1
  then show ?case by simp
next
  case (2 x)
  then show ?case by (simp add: isName_def)
next
  case (3 x y ys)
  then show ?case by simp
qed

lemma joinSlash_names_shape:
  assumes "\<forall>n\<in>set ns. isName n"
  shows "\<not> spaceBySlash (joinSlash ns) \<and> \<not> doubleSlash (joinSlash ns)
    \<and> backslash \<notin> set (joinSlash ns) \<and> trimmed (joinSlash ns)
    \<and> \<not> hasTrailingSeperator (joinSlash ns)"
  using assms
proof (induction ns)
  case Nil
  then show ?case by (simp add: trimmed_def hasTrailingSeperator_def)
next
  case (Cons n ns)
  have n: "isName n" using Cons.prems by simp
  have ns: "slash \<notin> set n" by (rule isName_no_slash [OF n])
  have nb: "backslash \<notin> set n" using n by (auto simp: isName_def isSep_def)
  show ?case
  proof (cases "ns = []")
    case True
    then show ?thesis
      using n ns nb isName_last [OF n]
      by (simp add: no_slash_no_spaceBySlash no_slash_no_doubleSlash isName_def
          hasTrailingSeperator_def)
  next
    case False
    have ih: "\<not> spaceBySlash (joinSlash ns)" "\<not> doubleSlash (joinSlash ns)"
        "backslash \<notin> set (joinSlash ns)" "trimmed (joinSlash ns)"
        "\<not> hasTrailingSeperator (joinSlash ns)"
      using Cons.IH Cons.prems by simp_all
    have h: "joinSlash ns \<noteq> []" "hd (joinSlash ns) = hd (hd ns)"
      using joinSlash_names_hd [of ns] Cons.prems False by simp_all
    have "hd ns \<in> set ns" using False by simp
    then have hn: "isName (hd ns)" using Cons.prems by simp
    have j: "joinSlash (n # ns) = n @ slash # joinSlash ns"
      using False by (simp add: joinSlash_Cons)
    have ne: "n \<noteq> []" using n by (simp add: isName_def)
    have 1: "\<not> spaceBySlash (joinSlash (n # ns))"
      unfolding j
      using ih(1) h isName_hd [OF hn] isName_last [OF n] ns ne
      by (simp add: spaceBySlash_append spaceBySlash_Cons no_slash_no_spaceBySlash)
    have 2: "\<not> doubleSlash (joinSlash (n # ns))"
      unfolding j
      using ih(2) h isName_hd [OF hn] isName_last [OF n] ns ne
      by (simp add: doubleSlash_append doubleSlash_Cons no_slash_no_doubleSlash)
    have 3: "backslash \<notin> set (joinSlash (n # ns))"
      unfolding j using ih(3) nb by (simp add: slash_def backslash_def)
    have 4: "trimmed (joinSlash (n # ns))"
      unfolding j using ih(4) h(1) isName_hd [OF n] ne
      by (simp add: trimmed_def)
    have 5: "\<not> hasTrailingSeperator (joinSlash (n # ns))"
      unfolding j using ih(5) h(1) by (simp add: hasTrailingSeperator_def)
    show ?thesis using 1 2 3 4 5 by simp
  qed
qed

lemma sepAhead_spaceBySlash:
  assumes "isSpace c" and "sepAhead (c # cs)" and "backslash \<notin> set cs"
  shows "spaceBySlash (c # cs)"
  using assms
proof (induction cs arbitrary: c)
  case Nil
  then show ?case by (simp add: sepAhead_def)
next
  case (Cons d ds)
  have s: "sepAhead (d # ds)" using Cons.prems(1,2) by (simp add: sepAhead_space)
  show ?case
  proof (cases "isSpace d")
    case True
    then have "spaceBySlash (d # ds)"
      using Cons.IH [of d] s Cons.prems(3) by simp
    then show ?thesis by simp
  next
    case False
    then have "isSep d" using s by (simp add: sepAhead_not_space)
    then have "d = slash" using Cons.prems(3) by (auto simp: isSep_def)
    then show ?thesis using Cons.prems(1) by simp
  qed
qed

lemma replaceSeparators_fixed:
  assumes "backslash \<notin> set s" and "\<not> spaceBySlash s"
  shows "replaceSeparators s = s"
  using assms
proof (induction s)
  case Nil
  then show ?case by (simp add: replaceSeparators_Nil)
next
  case (Cons c cs)
  have ih: "replaceSeparators cs = cs"
    using Cons.IH Cons.prems by (simp add: spaceBySlash_Cons)
  show ?case
  proof (cases "c = slash")
    case True
    have "cs = [] \<or> \<not> isSpace (hd cs)"
      using Cons.prems(2) True by (auto simp: spaceBySlash_Cons)
    then have d: "dropWhile isSpace cs = cs" by (cases cs) auto
    have "dropWhile isSpace (c # cs) = c # cs"
      using True by (simp add: not_isSpace_slash)
    then show ?thesis
      using True ih d
      by (simp add: replaceSeparators_match [OF sepAhead_slash] del: dropWhile.simps)
  next
    case False
    have "\<not> sepAhead (c # cs)"
    proof (cases "isSpace c")
      case True
      then show ?thesis
        using sepAhead_spaceBySlash [of c cs] Cons.prems by auto
    next
      case nsp: False
      have "\<not> isSep c" using False Cons.prems(1) by (auto simp: isSep_def)
      then show ?thesis using nsp by (simp add: sepAhead_not_space)
    qed
    then show ?thesis by (simp add: replaceSeparators_copy ih)
  qed
qed

lemma normalizeSlashes_fixed:
  assumes "backslash \<notin> set s" and "\<not> spaceBySlash s" and "trimmed s"
  shows "normalizeSlashes s = s"
  by (simp add: normalizeSlashes_def replaceSeparators_fixed [OF assms(1,2)] trim_trimmed [OF assms(3)])

lemma normalizeSlashes_fixed_shape:
  assumes "normalizeSlashes s = s"
  shows "backslash \<notin> set s \<and> \<not> spaceBySlash s \<and> trimmed s"
proof -
  have "backslash \<notin> set (normalizeSlashes s) \<and> \<not> spaceBySlash (normalizeSlashes s)
      \<and> trimmed (normalizeSlashes s)"
    using set_trim [of "replaceSeparators s"] replaceSeparators_no_backslash [of s]
      spaceBySlash_trim [OF replaceSeparators_no_spaceBySlash, of s] trimmed_trim
    by (auto simp: normalizeSlashes_def)
  then show ?thesis unfolding assms .
qed

lemma uncRoot_None: "x = [] \<or> \<not> isSep (hd x) \<Longrightarrow> uncRoot x = None"
  by (cases x) (auto simp: uncRoot_def)

lemma driveRoot_name_append:
  assumes "n \<noteq> []" and "y = [] \<or> hd y = slash" and "driveRoot n = None"
  shows "driveRoot (n @ y) = None"
proof (cases n)
  case Nil
  then show ?thesis using assms(1) by simp
next
  case n: (Cons a n')
  show ?thesis
  proof (cases n')
    case Nil
    show ?thesis
    proof (cases y)
      case Nil
      then show ?thesis using assms(3) by simp
    next
      case (Cons b y')
      then have "b = slash" using assms(2) by simp
      then show ?thesis
        unfolding n Nil Cons by (simp add: driveRoot_def slash_def colon_def)
    qed
  next
    case (Cons b n'')
    then show ?thesis
      using assms(3) unfolding n Cons
      by (auto simp: driveRoot_def split: list.splits if_splits)
  qed
qed

lemma urlRoot_doubleSlash:
  assumes "urlRoot x \<noteq> None"
  shows "doubleSlash x"
proof -
  let ?w = "takeWhile isWordChar x" and ?r = "dropWhile isWordChar x"
  obtain rest where r: "?r = colon # slash # slash # rest"
    using assms
    by (auto simp: urlRoot_def Let_def split: list.splits if_splits simp del: dropWhile_eq_Nil_conv)
  have d: "doubleSlash ?r" unfolding r by simp
  have "doubleSlash (?w @ ?r)"
    by (subst doubleSlash_append) (use d in blast)
  then show ?thesis by (simp only: takeWhile_dropWhile_id)
qed

lemma names_not_absolute:
  assumes "\<forall>n\<in>set ns. isName n" and "ns \<noteq> []" and "driveRoot (hd ns) = None"
  shows "\<not> isAbsolute (joinSlash ns)"
proof -
  obtain n ns' where ns: "ns = n # ns'" using assms(2) by (cases ns) auto
  have n: "isName n" using assms(1) ns by simp
  have ne: "n \<noteq> []" using n by (simp add: isName_def)
  have j: "joinSlash ns = n @ (if ns' = [] then [] else slash # joinSlash ns')"
    unfolding ns by (simp add: joinSlash_Cons)
  have "hd (joinSlash ns) = hd n" using ne unfolding j by simp
  then have 1: "uncRoot (joinSlash ns) = None"
    using isName_hd [OF n] by (intro uncRoot_None) simp
  have 2: "driveRoot (joinSlash ns) = None"
    unfolding j using assms(3) ns by (intro driveRoot_name_append [OF ne]) auto
  have "\<not> doubleSlash (joinSlash ns)"
    using joinSlash_names_shape [OF assms(1)] by simp
  then have 3: "urlRoot (joinSlash ns) = None"
    using urlRoot_doubleSlash by blast
  show ?thesis by (simp add: isAbsolute_def rootRegExp_def 1 2 3)
qed

lemma stableRoot_posix: "stableRoot (str ''/'')"
proof -
  have "getRootLength (str ''/'' @ x) = length (str ''/'')" if "\<not> (x \<noteq> [] \<and> isSep (hd x))" for x
    using that by (cases x) (auto simp: getRootLength_def rootRegExp_def uncRoot_def char_eval)
  then show ?thesis
    by (simp add: stableRoot_def) (simp add: path_eval)
qed

lemma stableRoot_drive:
  assumes "isLetter c"
  shows "stableRoot [c, colon, slash]"
proof -
  have c: "\<not> isSep c" "\<not> isSpace c" "c \<noteq> backslash" "c \<noteq> slash"
    using assms by (auto simp: char_eval)
  have "getRootLength ([c, colon, slash] @ x) = length [c, colon, slash]" for x
    using assms c(1)
    by (simp add: getRootLength_def rootRegExp_def uncRoot_def driveRoot_def isSep_def)
  moreover have "normalizeSlashes [c, colon, slash] = [c, colon, slash]"
    using c by (intro normalizeSlashes_fixed) (auto simp: trimmed_def char_eval)
  ultimately show ?thesis
    by (simp add: stableRoot_def hasTrailingSeperator_def isSep_def)
qed

lemma stableRoot_shape:
  assumes "stableRoot r"
  shows "r \<noteq> []" and "last r = slash" and "backslash \<notin> set r" and "\<not> spaceBySlash r"
    and "trimmed r"
proof -
  have t: "hasTrailingSeperator r" and n: "normalizeSlashes r = r"
    using assms by (simp_all add: stableRoot_def)
  show ne: "r \<noteq> []" using t by (simp add: hasTrailingSeperator_def)
  show b: "backslash \<notin> set r" and "\<not> spaceBySlash r" and "trimmed r"
    using normalizeSlashes_fixed_shape [OF n] by simp_all
  have "last r \<in> set r" using ne by simp
  then have "last r \<noteq> backslash" using b by auto
  then show "last r = slash" using t by (simp add: hasTrailingSeperator_def isSep_def)
qed

lemma stableRoot_length:
  assumes "stableRoot r" and "x = [] \<or> \<not> isSep (hd x)"
  shows "getRootLength (r @ x) = length r"
  using assms by (auto simp: stableRoot_def)

lemma rooted_names_shape:
  assumes r: "stableRoot r" and ns: "\<forall>n\<in>set ns. isName n"
  shows "normalizeSlashes (r @ joinSlash ns) = r @ joinSlash ns"
    and "getRootLength (r @ joinSlash ns) = length r"
    and "isAbsolute (r @ joinSlash ns)"
    and "hasTrailingSeperator (r @ joinSlash ns) = (ns = [])"
proof -
  note rs = stableRoot_shape [OF r]
  note js = joinSlash_names_shape [OF ns]
  have h: "joinSlash ns = [] \<or> \<not> isSep (hd (joinSlash ns))"
  proof (cases "ns = []")
    case True
    then show ?thesis by simp
  next
    case False
    then have "hd ns \<in> set ns" by simp
    then have "isName (hd ns)" using ns by simp
    then show ?thesis
      using joinSlash_names_hd [OF ns False] isName_hd by simp
  qed
  have hs: "joinSlash ns = [] \<or> \<not> isSpace (hd (joinSlash ns))"
    using js by (auto simp: trimmed_def)
  have hsl: "joinSlash ns = [] \<or> hd (joinSlash ns) \<noteq> slash"
    using h by (auto simp: isSep_def)
  show "normalizeSlashes (r @ joinSlash ns) = r @ joinSlash ns"
  proof (rule normalizeSlashes_fixed)
    show "backslash \<notin> set (r @ joinSlash ns)" using rs(3) js by simp
    show "\<not> spaceBySlash (r @ joinSlash ns)"
      using rs js hs hsl by (auto simp: spaceBySlash_append not_isSpace_slash)
    show "trimmed (r @ joinSlash ns)"
      using rs(1,5) js by (auto simp: trimmed_def last_append hd_append)
  qed
  show l: "getRootLength (r @ joinSlash ns) = length r"
    by (rule stableRoot_length [OF r h])
  have "rootRegExp (r @ joinSlash ns) \<noteq> None"
  proof
    assume "rootRegExp (r @ joinSlash ns) = None"
    then have "getRootLength (r @ joinSlash ns) = 0" by (simp add: getRootLength_def)
    then show False using l rs(1) by simp
  qed
  then show "isAbsolute (r @ joinSlash ns)" by (simp add: isAbsolute_def)
  show "hasTrailingSeperator (r @ joinSlash ns) = (ns = [])"
  proof (cases "ns = []")
    case True
    then show ?thesis using r by (simp add: stableRoot_def)
  next
    case False
    have "joinSlash ns \<noteq> []" using joinSlash_names_hd [OF ns False] by simp
    then show ?thesis
      using js False by (simp add: hasTrailingSeperator_def)
  qed
qed

lemma parse_rooted_names:
  assumes r: "stableRoot r" and ns: "\<forall>n\<in>set ns. isName n"
  shows "parse (r @ joinSlash ns) = r # ns"
proof -
  have l: "getRootLength (r @ joinSlash ns) = length r"
    by (rule rooted_names_shape(2) [OF r ns])
  have t: "map trim ns = ns"
    using ns by (induction ns) (auto simp: isName_def trim_trimmed)
  show ?thesis
  proof (cases "ns = []")
    case True
    then show ?thesis
      using l by (simp add: parse_def splitSlashes_Nil)
  next
    case False
    have s: "splitSlashes (joinSlash ns) = ns"
      by (rule splitSlashes_joinSlash [OF ns False])
    have "last ns \<in> set ns" using False by simp
    then have "last ns \<noteq> []" using ns by (auto simp: isName_def)
    then show ?thesis
      using l False by (simp add: parse_def s t)
  qed
qed

section \<open>resolve after relative\<close>


lemma plainName_isName: "plainName n \<Longrightarrow> isName n"
  by (simp add: plainName_def)


lemma driveRoot_dotdot: "driveRoot (str ''..'') = None"
  by (simp add: driveRoot_def char_eval)

lemma normalize_rooted:
  assumes r: "stableRoot r" and ns: "\<forall>n\<in>set ns. isName n"
  shows "normalize_path (r @ joinSlash ns) = format (reduceLoop [r] ns)"
proof -
  have 1: "reduce (parse (normalizeSlashes (r @ joinSlash ns))) = reduceLoop [r] ns"
    by (simp add: rooted_names_shape(1) [OF r ns] parse_rooted_names [OF r ns])
  have 2: "hasTrailingSeperator (r @ joinSlash ns) = (ns = [])"
    by (rule rooted_names_shape(4) [OF r ns])
  show ?thesis
    unfolding normalize_path_def Let_def 1 2 by auto
qed

lemma normalize_rooted_plain:
  assumes r: "stableRoot r" and ns: "\<forall>n\<in>set ns. plainName n"
  shows "normalize_path (r @ joinSlash ns) = r @ joinSlash ns"
proof -
  have "\<forall>n\<in>set ns. isName n" using ns plainName_isName by blast
  then have "normalize_path (r @ joinSlash ns) = format (reduceLoop [r] ns)"
    by (rule normalize_rooted [OF r])
  moreover have "reduceLoop [r] ns = [r] @ ns"
    by (rule reduceLoop_plain) (use ns in \<open>auto simp: plainName_def\<close>)
  ultimately show ?thesis by (simp add: format_def)
qed

lemma commonStart_prefix:
  assumes "\<And>i. i < length xs \<Longrightarrow> i < length ys \<Longrightarrow>
      compareStrings env (Some (xs ! i)) (Some (ys ! i)) ic = 0 \<Longrightarrow> xs ! i = ys ! i"
    and "take start xs = take start ys" and "start \<le> length xs" and "start \<le> length ys"
  shows "take (commonStart env ic xs ys start) xs = take (commonStart env ic xs ys start) ys
    \<and> commonStart env ic xs ys start \<le> length xs
    \<and> commonStart env ic xs ys start \<le> length ys"
  using assms
proof (induction env ic xs ys start rule: commonStart.induct)
  case (1 env ic xs ys start)
  show ?case
  proof (cases "start < length xs \<and> start < length ys
      \<and> compareStrings env (Some (xs ! start)) (Some (ys ! start)) ic = 0")
    case True
    then have e: "xs ! start = ys ! start" using "1.prems"(1) by blast
    have t: "take (start + 1) xs = take (start + 1) ys"
      using True e "1.prems"(2) by (simp add: take_Suc_conv_app_nth)
    have c: "commonStart env ic xs ys start = commonStart env ic xs ys (start + 1)"
      using True by (subst commonStart.simps) simp
    have "take (commonStart env ic xs ys (start + 1)) xs
        = take (commonStart env ic xs ys (start + 1)) ys
      \<and> commonStart env ic xs ys (start + 1) \<le> length xs
      \<and> commonStart env ic xs ys (start + 1) \<le> length ys"
    proof (rule "1.IH")
      show "start < length xs \<and> start < length ys" using True by simp
      show "\<not> compareStrings env (Some (xs ! start)) (Some (ys ! start)) ic \<noteq> 0"
        using True by simp
      show "\<And>i. i < length xs \<Longrightarrow> i < length ys \<Longrightarrow>
          compareStrings env (Some (xs ! i)) (Some (ys ! i)) ic = 0 \<Longrightarrow> xs ! i = ys ! i"
        by (rule "1.prems"(1))
      show "take (start + 1) xs = take (start + 1) ys" by (rule t)
      show "start + 1 \<le> length xs" "start + 1 \<le> length ys" using True by simp_all
    qed
    then show ?thesis unfolding c .
  next
    case False
    then have c: "commonStart env ic xs ys start = start"
      by (subst commonStart.simps) auto
    show ?thesis unfolding c using "1.prems" by simp
  qed
qed

lemma combine_single: "combine path [name] = combineStep name (normalizeSlashes path)"
  by (simp add: combine_def)


lemma resolve_names:
  assumes r: "stableRoot r" and fs: "\<forall>n\<in>set fs. isName n" and xs: "\<forall>n\<in>set xs. isName n"
    and ne: "xs \<noteq> []" and d: "driveRoot (hd xs) = None"
  shows "resolve (r @ joinSlash fs) [joinSlash xs] = format (reduceLoop [r] (fs @ xs))"
proof -
  have all: "\<forall>n\<in>set (fs @ xs). isName n" using fs xs by auto
  note xsh = joinSlash_names_shape [OF xs]
  have 1: "normalizeSlashes (joinSlash xs) = joinSlash xs"
    using xsh by (intro normalizeSlashes_fixed) simp_all
  have 2: "joinSlash xs \<noteq> []" using joinSlash_names_hd [OF xs ne] by simp
  have 3: "\<not> isAbsolute (joinSlash xs)" by (rule names_not_absolute [OF xs ne d])
  have 4: "normalizeSlashes (r @ joinSlash fs) = r @ joinSlash fs"
    by (rule rooted_names_shape(1) [OF r fs])
  have 5: "r @ joinSlash fs \<noteq> []" using stableRoot_shape(1) [OF r] by simp
  have 6: "hasTrailingSeperator (r @ joinSlash fs) = (fs = [])"
    by (rule rooted_names_shape(4) [OF r fs])
  have 7: "normalizeSlashes r = r" using r by (simp add: stableRoot_def)
  have "combine (r @ joinSlash fs) [joinSlash xs] = r @ joinSlash (fs @ xs)"
  proof (cases "fs = []")
    case True
    then show ?thesis
      using 2 3 5 6 by (simp add: combine_single combineStep_def 1 7 Let_def)
  next
    case False
    then show ?thesis
      using 2 3 5 6 ne
      by (simp add: combine_single combineStep_def 1 4 joinSlash_append Let_def)
  qed
  then show ?thesis
    by (simp add: resolve_def normalize_rooted [OF r all])
qed

lemma strLess_trichotomy: "\<not> strLess x y \<Longrightarrow> \<not> strLess y x \<Longrightarrow> x = y"
  by (induction x y rule: strLess.induct) auto

text \<open>Without \<open>Intl\<close> and with \<open>ignoreCase\<close> false, only identical strings compare equal.\<close>

lemma compareStrings_noIntl_zero:
  "compareStrings noIntl (Some a) (Some b) False = 0 \<Longrightarrow> a = b"
  using strLess_trichotomy [of a b]
  by (auto simp: compareStrings_def noIntl_def Let_def split: if_splits)

section \<open>The shape of a normalized path\<close>


text \<open>Splitting at \<open>/\<close> and joining again.\<close>

lemma splitSlashes_not_Nil: "splitSlashes s \<noteq> []"
  by (subst splitSlashes.simps) (simp split: list.splits)

lemma split_at_first_slash:
  assumes "slash \<in> set s"
  shows "\<exists>x y. s = x @ slash # y \<and> slash \<notin> set x"
  using assms by (metis split_list_first)

lemma joinSlash_Cons_nonempty: "ys \<noteq> [] \<Longrightarrow> joinSlash (x # ys) = x @ slash # joinSlash ys"
  by (simp add: joinSlash_Cons)

lemma dropWhile_slash_id: "y = [] \<or> hd y \<noteq> slash \<Longrightarrow> dropWhile (\<lambda>c. c = slash) y = y"
  by (cases y) auto

lemma joinSlash_splitSlashes:
  assumes "\<not> doubleSlash s"
  shows "joinSlash (splitSlashes s) = s"
  using assms
proof (induction s rule: length_induct)
  case (1 s)
  show ?case
  proof (cases "slash \<in> set s")
    case False
    then show ?thesis by (simp add: splitSlashes_no_slash)
  next
    case True
    then obtain x y where s: "s = x @ slash # y" and x: "slash \<notin> set x"
      using split_at_first_slash by blast
    have nd: "\<not> doubleSlash (slash # y)" and ndy: "\<not> doubleSlash y"
      using "1.prems" unfolding s by (auto simp: doubleSlash_append doubleSlash_Cons)
    have hy: "y = [] \<or> hd y \<noteq> slash"
      using nd by (auto simp: doubleSlash_Cons)
    have "length y < length s" unfolding s by simp
    then have ih: "joinSlash (splitSlashes y) = y"
      using "1.IH" ndy by blast
    have "splitSlashes s = x # splitSlashes y"
      unfolding s by (simp add: splitSlashes_piece [OF x] dropWhile_slash_id [OF hy])
    then show ?thesis
      using ih by (simp add: joinSlash_Cons_nonempty [OF splitSlashes_not_Nil] s)
  qed
qed

lemma splitSlashes_last:
  assumes "s \<noteq> []" and "last s \<noteq> slash" and "\<not> doubleSlash s"
  shows "last (splitSlashes s) \<noteq> []"
  using assms
proof (induction s rule: length_induct)
  case (1 s)
  show ?case
  proof (cases "slash \<in> set s")
    case False
    then show ?thesis using "1.prems"(1) by (simp add: splitSlashes_no_slash)
  next
    case True
    then obtain x y where s: "s = x @ slash # y" and x: "slash \<notin> set x"
      using split_at_first_slash by blast
    have nd: "\<not> doubleSlash (slash # y)" and ndy: "\<not> doubleSlash y"
      using "1.prems"(3) unfolding s by (auto simp: doubleSlash_append doubleSlash_Cons)
    have hy: "y = [] \<or> hd y \<noteq> slash"
      using nd by (auto simp: doubleSlash_Cons)
    have yne: "y \<noteq> []" using "1.prems"(2) unfolding s by auto
    have ly: "last y \<noteq> slash" using "1.prems"(2) yne unfolding s by simp
    have "length y < length s" unfolding s by simp
    then have ih: "last (splitSlashes y) \<noteq> []"
      using "1.IH" yne ly ndy by blast
    have "splitSlashes s = x # splitSlashes y"
      unfolding s by (simp add: splitSlashes_piece [OF x] dropWhile_slash_id [OF hy])
    then show ?thesis
      using ih by (simp add: splitSlashes_not_Nil)
  qed
qed

lemma takeWhile_not_slash_trimmed:
  assumes "\<not> spaceBySlash (x @ slash # y)" and "x = [] \<or> \<not> isSpace (hd x)"
  shows "trimmed x"
proof (cases "x = []")
  case True
  then show ?thesis by (simp add: trimmed_def)
next
  case False
  have "\<not> isSpace (last x)"
    using assms(1) False by (auto simp: spaceBySlash_append)
  then show ?thesis using assms(2) False by (simp add: trimmed_def)
qed

lemma splitSlashes_trimmed:
  assumes "\<not> spaceBySlash s" and "trimmed s"
  shows "\<forall>x\<in>set (splitSlashes s). trimmed x"
  using assms
proof (induction s rule: length_induct)
  case (1 s)
  show ?case
  proof (cases "slash \<in> set s")
    case False
    then show ?thesis using "1.prems"(2) by (simp add: splitSlashes_no_slash)
  next
    case True
    then obtain x y where s: "s = x @ slash # y" and x: "slash \<notin> set x"
      using split_at_first_slash by blast
    define y' where "y' = dropWhile (\<lambda>c. c = slash) y"
    have hx: "x = [] \<or> \<not> isSpace (hd x)"
      using "1.prems"(2) unfolding s by (cases x) (auto simp: trimmed_def)
    have tx: "trimmed x"
      using "1.prems"(1) hx unfolding s by (rule takeWhile_not_slash_trimmed)
    have suffix: "\<exists>z. s = z @ y' \<and> z \<noteq> [] \<and> last z = slash"
    proof -
      have "y = takeWhile (\<lambda>c. c = slash) y @ y'" by (simp add: y'_def)
      then have "s = (x @ slash # takeWhile (\<lambda>c. c = slash) y) @ y'"
        unfolding s by simp
      moreover have "last (x @ slash # takeWhile (\<lambda>c. c = slash) y) = slash"
      proof (cases "takeWhile (\<lambda>c. c = slash) y = []")
        case True
        then show ?thesis by simp
      next
        case False
        then have "last (takeWhile (\<lambda>c. c = slash) y) \<in> set (takeWhile (\<lambda>c. c = slash) y)"
          by simp
        then have "last (takeWhile (\<lambda>c. c = slash) y) = slash"
          by (meson set_takeWhileD)
        then show ?thesis using False by simp
      qed
      ultimately show ?thesis by blast
    qed
    then obtain z where z: "s = z @ y'" "z \<noteq> []" "last z = slash" by blast
    have nsz: "\<not> spaceBySlash (z @ y')" using "1.prems"(1) unfolding z(1) .
    have ns: "\<not> spaceBySlash y'"
      using nsz by (simp add: spaceBySlash_append)
    have ty: "trimmed y'"
    proof (cases "y' = []")
      case True
      then show ?thesis by (simp add: trimmed_def)
    next
      case False
      have "\<not> isSpace (hd y')"
        using nsz False z(2,3) by (simp add: spaceBySlash_append)
      moreover have "last s = last y'"
        using False unfolding z(1) by simp
      then have "\<not> isSpace (last y')"
        using "1.prems"(2) z(1,2) by (auto simp: trimmed_def)
      ultimately show ?thesis by (simp add: trimmed_def)
    qed
    have "length y' < length s"
      unfolding z(1) using z(2) by simp
    then have ih: "\<forall>x\<in>set (splitSlashes y'). trimmed x"
      using "1.IH" ns ty by blast
    have "splitSlashes s = x # splitSlashes y'"
      unfolding s y'_def by (simp add: splitSlashes_piece [OF x])
    then show ?thesis using ih tx by simp
  qed
qed

text \<open>
  What \<open>parse\<close> and \<open>format\<close> give back unchanged: a string without \<open>//\<close>, without white
  space next to a \<open>/\<close> or at its ends, and not ending in \<open>/\<close>.
\<close>

lemma split_trim_join:
  assumes "\<not> doubleSlash u" and "\<not> spaceBySlash u" and "trimmed u"
    and "u = [] \<or> last u \<noteq> slash"
  shows "joinSlash (map trim (let rest = splitSlashes u in
      if rest \<noteq> [] \<and> last rest = [] then butlast rest else rest)) = u"
proof (cases "u = []")
  case True
  then show ?thesis by (simp add: splitSlashes_Nil)
next
  case False
  have l: "last (splitSlashes u) \<noteq> []"
    using False assms(4,1) by (intro splitSlashes_last) simp_all
  have "map trim (splitSlashes u) = splitSlashes u"
    using splitSlashes_trimmed [OF assms(2,3)] by (simp add: map_idI trim_trimmed)
  then show ?thesis
    using l by (simp add: Let_def joinSlash_splitSlashes [OF assms(1)])
qed

lemma splitSlashes_pieces_no_slash:
  "\<forall>x\<in>set (splitSlashes s). slash \<notin> set x \<and> set x \<subseteq> set s"
proof (induction s rule: length_induct)
  case (1 s)
  show ?case
  proof (cases "slash \<in> set s")
    case False
    then show ?thesis by (simp add: splitSlashes_no_slash)
  next
    case True
    then obtain x y where s: "s = x @ slash # y" and x: "slash \<notin> set x"
      using split_at_first_slash by blast
    define y' where "y' = dropWhile (\<lambda>c. c = slash) y"
    have "length y' \<le> length y" unfolding y'_def by (rule length_dropWhile_le)
    then have "length y' < length s" unfolding s by simp
    then have "\<forall>x\<in>set (splitSlashes y'). slash \<notin> set x \<and> set x \<subseteq> set y'"
      using "1.IH" by blast
    moreover have "set y' \<subseteq> set y"
      unfolding y'_def by (meson set_dropWhileD subsetI)
    then have "set y' \<subseteq> set s" unfolding s by auto
    moreover have "set x \<subseteq> set s" unfolding s by auto
    moreover have "splitSlashes s = x # splitSlashes y'"
      unfolding s y'_def by (simp add: splitSlashes_piece [OF x])
    ultimately show ?thesis using x by auto
  qed
qed

lemma pop_empty_Cons:
  assumes "ps \<noteq> []"
  shows "(if last (x # ps) = [] then butlast (x # ps) else x # ps)
    = x # (if last ps = [] then butlast ps else ps)"
  using assms by simp

lemma splitSlashes_pieces_nonempty:
  assumes "s = [] \<or> hd s \<noteq> slash"
  shows "\<forall>x\<in>set (if last (splitSlashes s) = [] then butlast (splitSlashes s)
      else splitSlashes s). x \<noteq> []"
  using assms
proof (induction s rule: length_induct)
  case (1 s)
  show ?case
  proof (cases "slash \<in> set s")
    case False
    then show ?thesis by (simp add: splitSlashes_no_slash)
  next
    case True
    then obtain x y where s: "s = x @ slash # y" and x: "slash \<notin> set x"
      using split_at_first_slash by blast
    define y' where "y' = dropWhile (\<lambda>c. c = slash) y"
    have xne: "x \<noteq> []" using "1.prems" unfolding s by (cases x) auto
    have "length y' \<le> length y" unfolding y'_def by (rule length_dropWhile_le)
    then have l: "length y' < length s" unfolding s by simp
    have "y' = [] \<or> hd y' \<noteq> slash"
      unfolding y'_def using hd_dropWhile [of "\<lambda>c. c = slash" y] by blast
    then have ih: "\<forall>x\<in>set (if last (splitSlashes y') = [] then butlast (splitSlashes y')
        else splitSlashes y'). x \<noteq> []"
      using "1.IH" l by blast
    have sp: "splitSlashes s = x # splitSlashes y'"
      unfolding s y'_def by (simp add: splitSlashes_piece [OF x])
    show ?thesis
      unfolding sp pop_empty_Cons [OF splitSlashes_not_Nil] using ih xne
      by (simp only: set_simps ball_simps simp_thms)
  qed
qed

lemma splitSlashes_tail_nonempty:
  "\<forall>x\<in>set (tl (if last (splitSlashes s) = [] then butlast (splitSlashes s)
      else splitSlashes s)). x \<noteq> []"
proof (cases "slash \<in> set s")
  case False
  then show ?thesis by (simp add: splitSlashes_no_slash)
next
  case True
  then obtain x y where s: "s = x @ slash # y" and x: "slash \<notin> set x"
    using split_at_first_slash by blast
  define y' where "y' = dropWhile (\<lambda>c. c = slash) y"
  have "y' = [] \<or> hd y' \<noteq> slash"
    unfolding y'_def using hd_dropWhile [of "\<lambda>c. c = slash" y] by blast
  then have ih: "\<forall>x\<in>set (if last (splitSlashes y') = [] then butlast (splitSlashes y')
      else splitSlashes y'). x \<noteq> []"
    by (rule splitSlashes_pieces_nonempty)
  have sp: "splitSlashes s = x # splitSlashes y'"
    unfolding s y'_def by (simp add: splitSlashes_piece [OF x])
  show ?thesis
    unfolding sp pop_empty_Cons [OF splitSlashes_not_Nil] list.sel using ih .
qed

lemma splitSlashes_pieces_last:
  assumes "\<not> spaceBySlash s" and "s = [] \<or> \<not> isSpace (last s)"
  shows "\<forall>x\<in>set (splitSlashes s). x = [] \<or> \<not> isSpace (last x)"
  using assms
proof (induction s rule: length_induct)
  case (1 s)
  show ?case
  proof (cases "slash \<in> set s")
    case False
    then show ?thesis using "1.prems"(2) by (simp add: splitSlashes_no_slash)
  next
    case True
    then obtain x y where s: "s = x @ slash # y" and x: "slash \<notin> set x"
      using split_at_first_slash by blast
    define y' where "y' = dropWhile (\<lambda>c. c = slash) y"
    have lx: "x = [] \<or> \<not> isSpace (last x)"
      using "1.prems"(1) unfolding s by (auto simp: spaceBySlash_append)
    have "y = takeWhile (\<lambda>c. c = slash) y @ y'" by (simp add: y'_def)
    then have z: "s = (x @ slash # takeWhile (\<lambda>c. c = slash) y) @ y'"
      unfolding s by simp
    have nsz: "\<not> spaceBySlash ((x @ slash # takeWhile (\<lambda>c. c = slash) y) @ y')"
      using "1.prems"(1) by (subst (asm) z) simp
    have ns: "\<not> spaceBySlash y'"
      using nsz unfolding spaceBySlash_append [of "x @ slash # takeWhile (\<lambda>c. c = slash) y"] by blast
    have ly: "y' = [] \<or> \<not> isSpace (last y')"
    proof (cases "y' = []")
      case True
      then show ?thesis by simp
    next
      case False
      have "last s = last y'" using False by (subst z) simp
      then show ?thesis using "1.prems"(2) s by auto
    qed
    have "length y' \<le> length y" unfolding y'_def by (rule length_dropWhile_le)
    then have "length y' < length s" unfolding s by simp
    then have ih: "\<forall>x\<in>set (splitSlashes y'). x = [] \<or> \<not> isSpace (last x)"
      using "1.IH" ns ly by blast
    have "splitSlashes s = x # splitSlashes y'"
      unfolding s y'_def by (simp add: splitSlashes_piece [OF x])
    then show ?thesis using ih lx by simp
  qed
qed

lemma trim_nonempty:
  assumes "x \<noteq> []" and "\<not> isSpace (last x)"
  shows "trim x \<noteq> []"
proof -
  have "last x \<in> set x" using assms(1) by simp
  then have "\<not> (\<forall>c\<in>set x. isSpace c)" using assms(2) by blast
  then have u: "dropWhile isSpace x \<noteq> []" by simp
  have "x = takeWhile isSpace x @ dropWhile isSpace x" by simp
  then have "last x = last (dropWhile isSpace x)"
    using u by (metis last_appendR)
  then have "\<not> isSpace (hd (rev (dropWhile isSpace x)))"
    using assms(2) u by (simp add: hd_rev)
  then have "dropWhile isSpace (rev (dropWhile isSpace x)) = rev (dropWhile isSpace x)"
    using u by (cases "rev (dropWhile isSpace x)") auto
  then show ?thesis using u by (simp add: trim_def)
qed

lemma spaceBySlash_drop: "\<not> spaceBySlash s \<Longrightarrow> \<not> spaceBySlash (drop k s)"
  using spaceBySlash_append2 [of "drop k s" "take k s"] by auto

lemma doubleSlash_drop: "\<not> doubleSlash s \<Longrightarrow> \<not> doubleSlash (drop k s)"
  using doubleSlash_append [of "take k s" "drop k s"] by auto

lemma parse_shape:
  assumes "backslash \<notin> set s" and "\<not> spaceBySlash s" and "trimmed s"
  shows "\<exists>comps. parse s = take (getRootLength s) s # comps \<and> goodItems comps"
proof -
  define rest where "rest = drop (getRootLength s) s"
  define ps where "ps = splitSlashes rest"
  define pp where "pp = (if last ps = [] then butlast ps else ps)"
  have psne: "ps \<noteq> []" unfolding ps_def by (rule splitSlashes_not_Nil)
  have p: "parse s = take (getRootLength s) s # map trim pp"
    using psne by (simp add: parse_def Let_def rest_def ps_def pp_def)
  have sub: "set pp \<subseteq> set ps"
    unfolding pp_def by (auto dest: in_set_butlastD)
  have r1: "\<not> spaceBySlash rest" unfolding rest_def by (rule spaceBySlash_drop [OF assms(2)])
  have r2: "rest = [] \<or> \<not> isSpace (last rest)"
    using assms(3) unfolding rest_def by (auto simp: trimmed_def)
  have r3: "set rest \<subseteq> set s" unfolding rest_def by (rule set_drop_subset)
  have a: "\<forall>x\<in>set ps. slash \<notin> set x \<and> set x \<subseteq> set rest"
    unfolding ps_def by (rule splitSlashes_pieces_no_slash)
  have b: "\<forall>x\<in>set ps. x = [] \<or> \<not> isSpace (last x)"
    unfolding ps_def by (rule splitSlashes_pieces_last [OF r1 r2])
  have c: "\<forall>x\<in>set (tl pp). x \<noteq> []"
    unfolding pp_def ps_def by (rule splitSlashes_tail_nonempty)
  have 1: "\<not> (\<exists>c\<in>set (trim x). isSep c) \<and> trimmed (trim x)" if "x \<in> set pp" for x
  proof -
    have "slash \<notin> set x" "backslash \<notin> set x"
      using that sub a r3 assms(1) by auto
    then have "slash \<notin> set (trim x)" "backslash \<notin> set (trim x)"
      using set_trim [of x] by auto
    then show ?thesis by (auto simp: isSep_def trimmed_trim)
  qed
  have 2: "trim x \<noteq> []" if "x \<in> set (tl pp)" for x
  proof -
    have "x \<in> set pp" using that by (cases pp) auto
    then have "x = [] \<or> \<not> isSpace (last x)" using sub b by auto
    moreover have "x \<noteq> []" using that c by simp
    ultimately show ?thesis using trim_nonempty by blast
  qed
  have 3: "[] \<noteq> trim x" if "x \<in> set (tl pp)" for x
    using 2 [OF that] by simp
  have "goodItems (map trim pp)"
    unfolding goodItems_def using 1 3 by (auto simp: map_tl [symmetric])
  then show ?thesis using p by blast
qed

lemma goodItems_remove:
  assumes "goodItems (a @ c # b)"
  shows "goodItems (a @ b)"
proof (cases a)
  case Nil
  then show ?thesis
    using assms by (cases b) (auto simp: goodItems_def)
next
  case (Cons x a')
  then show ?thesis
    using assms by (auto simp: goodItems_def)
qed

lemma goodItems_tail_names:
  assumes "goodItems (a @ c # b)"
  shows "\<forall>x\<in>set b. isName x"
  using assms by (cases a) (auto simp: goodItems_def isName_def)

lemma reduceLoop_names:
  assumes "\<forall>x\<in>set n. isName x" and "\<forall>x\<in>set rest. isName x"
  shows "\<forall>x\<in>set (reduceLoop n rest). isName x"
  using assms
proof (induction rest arbitrary: n)
  case Nil
  then show ?case by simp
next
  case (Cons c rest)
  have b: "\<forall>x\<in>set (butlast n). isName x"
    using Cons.prems(1) by (auto dest: in_set_butlastD)
  have r: "\<forall>x\<in>set rest. isName x" and c: "isName c"
    using Cons.prems(2) by simp_all
  have 1: "\<forall>x\<in>set (reduceLoop n rest). isName x"
    by (rule Cons.IH [OF Cons.prems(1) r])
  have 2: "\<forall>x\<in>set (reduceLoop (butlast n) rest). isName x"
    by (rule Cons.IH [OF b r])
  have "\<forall>x\<in>set (n @ [c]). isName x" using Cons.prems(1) c by simp
  then have 3: "\<forall>x\<in>set (reduceLoop (n @ [c]) rest). isName x"
    by (rule Cons.IH [OF _ r])
  show ?case
    unfolding reduceLoop.simps using 1 2 3 by (simp only: split: if_splits) blast
qed

lemma reduceLoop_shape:
  assumes "goodItems (ys @ rest)"
  shows "(\<exists>ys'. reduceLoop (root # ys) rest = root # ys' \<and> goodItems ys')
    \<or> (\<forall>x\<in>set (reduceLoop (root # ys) rest). isName x)"
  using assms
proof (induction rest arbitrary: ys)
  case Nil
  then show ?case by simp
next
  case (Cons c rest)
  show ?case
  proof (cases "c = str ''.''")
    case True
    have "goodItems (ys @ rest)" by (rule goodItems_remove [OF Cons.prems])
    then show ?thesis using Cons.IH [of ys] True by simp
  next
    case dot: False
    show ?thesis
    proof (cases "c = str ''..'' \<and> last (root # ys) \<noteq> str ''..''")
      case True
      show ?thesis
      proof (cases "ys = []")
        case ys: True
        have "\<forall>x\<in>set rest. isName x" by (rule goodItems_tail_names [OF Cons.prems])
        then have "\<forall>x\<in>set (reduceLoop [] rest). isName x"
          by (intro reduceLoop_names) simp_all
        then show ?thesis using True dot ys by simp
      next
        case ys: False
        then have "ys = butlast ys @ [last ys]" by simp
        then have "goodItems (butlast ys @ last ys # c # rest)"
          using Cons.prems by (metis append.assoc append_Cons append_Nil)
        then have "goodItems (butlast ys @ c # rest)" by (rule goodItems_remove)
        then have "goodItems (butlast ys @ rest)" by (rule goodItems_remove)
        then show ?thesis
          using Cons.IH [of "butlast ys"] True dot ys by simp
      qed
    next
      case False
      have "goodItems ((ys @ [c]) @ rest)" using Cons.prems by simp
      then show ?thesis
        using Cons.IH [of "ys @ [c]"] False dot by auto
    qed
  qed
qed

lemma joinSlash_good_shape:
  assumes "goodItems ys"
  shows "\<not> spaceBySlash (joinSlash ys) \<and> \<not> doubleSlash (joinSlash ys)
    \<and> trimmed (joinSlash ys) \<and> (joinSlash ys = [] \<or> last (joinSlash ys) \<noteq> slash)"
proof (cases ys)
  case Nil
  then show ?thesis by (simp add: trimmed_def)
next
  case (Cons y names)
  have y: "slash \<notin> set y" "trimmed y"
    using assms Cons by (auto simp: goodItems_def isSep_def)
  have names: "\<forall>n\<in>set names. isName n"
    using assms Cons by (auto simp: goodItems_def isName_def)
  show ?thesis
  proof (cases "names = []")
    case True
    have "y = [] \<or> last y \<noteq> slash" using y(1) by (cases y rule: rev_cases) auto
    then show ?thesis
      using y True Cons by (simp add: no_slash_no_spaceBySlash no_slash_no_doubleSlash)
  next
    case False
    note sh = joinSlash_names_shape [OF names]
    note h = joinSlash_names_hd [OF names False]
    note l = joinSlash_names_last [OF names False]
    have "hd names \<in> set names" "last names \<in> set names" using False by simp_all
    then have hn: "isName (hd names)" and ln: "isName (last names)" using names by simp_all
    have j: "joinSlash ys = y @ slash # joinSlash names"
      unfolding Cons using False by (simp add: joinSlash_Cons)
    have ly: "y = [] \<or> \<not> isSpace (last y)" and hy: "y = [] \<or> \<not> isSpace (hd y)"
      using y(2) by (auto simp: trimmed_def)
    have lys: "y = [] \<or> last y \<noteq> slash" using y(1) by (cases y rule: rev_cases) auto
    have 1: "\<not> spaceBySlash (joinSlash ys)"
      unfolding j using sh h isName_hd [OF hn] y(1) ly
      by (auto simp: spaceBySlash_append spaceBySlash_Cons no_slash_no_spaceBySlash)
    have 2: "\<not> doubleSlash (joinSlash ys)"
      unfolding j using sh h isName_hd [OF hn] y(1) lys
      by (auto simp: doubleSlash_append doubleSlash_Cons no_slash_no_doubleSlash)
    have 3: "trimmed (joinSlash ys)"
      unfolding j using sh h hy
      by (auto simp: trimmed_def hd_append not_isSpace_slash)
    have 4: "last (joinSlash ys) \<noteq> slash"
      unfolding j using h l isName_last [OF ln] by simp
    show ?thesis using 1 2 3 4 by simp
  qed
qed

lemma format_names_shape:
  assumes "\<forall>n\<in>set zs. isName n"
  shows "\<not> spaceBySlash (format zs) \<and> \<not> doubleSlash (format zs)
    \<and> trimmed (format zs) \<and> (format zs = [] \<or> last (format zs) \<noteq> slash)"
proof (cases zs)
  case Nil
  then show ?thesis by (simp add: format_def trimmed_def)
next
  case (Cons z names)
  have z: "isName z" and names: "\<forall>n\<in>set names. isName n"
    using assms Cons by simp_all
  have zs: "slash \<notin> set z" by (rule isName_no_slash [OF z])
  have zne: "z \<noteq> []" using z by (simp add: isName_def)
  note sh = joinSlash_names_shape [OF names]
  show ?thesis
  proof (cases "names = []")
    case True
    then show ?thesis
      using z zs isName_last [OF z] Cons
      by (simp add: format_def no_slash_no_spaceBySlash no_slash_no_doubleSlash isName_def)
  next
    case False
    note h = joinSlash_names_hd [OF names False]
    note l = joinSlash_names_last [OF names False]
    have "hd names \<in> set names" "last names \<in> set names" using False by simp_all
    then have hn: "isName (hd names)" and ln: "isName (last names)" using names by simp_all
    have f: "format zs = z @ joinSlash names" unfolding Cons by (simp add: format_def)
    have 1: "\<not> spaceBySlash (format zs)"
      unfolding f using sh h isName_hd [OF hn] isName_last [OF z] zs
      by (auto simp: spaceBySlash_append no_slash_no_spaceBySlash)
    have 2: "\<not> doubleSlash (format zs)"
      unfolding f using sh h isName_hd [OF hn] isName_last [OF z] zs
      by (auto simp: doubleSlash_append no_slash_no_doubleSlash)
    have 3: "trimmed (format zs)"
      unfolding f using sh h isName_hd [OF z] zne
      by (auto simp: trimmed_def)
    have 4: "last (format zs) \<noteq> slash"
      unfolding f using h l isName_last [OF ln] by simp
    show ?thesis using 1 2 3 4 by simp
  qed
qed

section \<open>The root of a path that starts with a root\<close>


lemma lazyToSep_prefix:
  assumes "lazyToSep u = Some n"
  shows "0 < n \<and> n \<le> length u \<and> lazyToSep (take n u @ v) = Some n"
  using assms
proof (induction u arbitrary: n)
  case Nil
  then show ?case by simp
next
  case (Cons c u)
  show ?case
  proof (cases "isSep c")
    case True
    then show ?thesis using Cons.prems by auto
  next
    case False
    then obtain k where k: "lazyToSep u = Some k" "n = Suc k" "\<not> lineTerminator c"
      using Cons.prems by (auto split: if_splits)
    show ?thesis
      using Cons.IH [OF k(1)] False k(2,3) by simp
  qed
qed

lemma uncRoot_prefix:
  assumes "uncRoot s = Some n"
  shows "n \<le> length s \<and> (\<exists>m\<ge>n. uncRoot (take n s @ t) = Some m)"
proof (cases s)
  case Nil
  then show ?thesis using assms by (simp add: uncRoot_def)
next
  case s: (Cons c cs)
  have c: "isSep c" using assms unfolding s by (auto simp: uncRoot_def split: if_splits)
  show ?thesis
  proof (cases cs)
    case Nil
    then have "n = 1" using assms c unfolding s by (simp add: uncRoot_def)
    then show ?thesis
      using c unfolding s Nil
      by (cases t) (auto simp: uncRoot_def split: option.splits)
  next
    case cs: (Cons d ds)
    show ?thesis
    proof (cases "isSep d")
      case False
      then have "n = 1" using assms c unfolding s cs by (simp add: uncRoot_def)
      then show ?thesis
        using c unfolding s cs
        by (cases t) (auto simp: uncRoot_def split: option.splits)
    next
      case d: True
      show ?thesis
      proof (cases "lazyToSep ds")
        case None
        then have "n = 2" using assms c d unfolding s cs by (simp add: uncRoot_def)
        then show ?thesis
          using c d unfolding s cs by (auto simp: uncRoot_def split: option.splits)
      next
        case (Some a)
        note pa = lazyToSep_prefix [OF Some]
        show ?thesis
        proof (cases "lazyToSep (drop a ds)")
          case None
          then have n: "n = 2 + a" using assms c d Some unfolding s cs by (simp add: uncRoot_def)
          have "lazyToSep (take a ds @ t) = Some a" "a \<le> length ds"
            using pa [of t] by simp_all
          then show ?thesis
            using c d unfolding s cs n
            by (auto simp: uncRoot_def split: option.splits)
        next
          case b: (Some b)
          note pb = lazyToSep_prefix [OF b]
          have n: "n = 2 + a + b" using assms c d Some b unfolding s cs by (simp add: uncRoot_def)
          have t1: "take (a + b) ds = take a ds @ take b (drop a ds)"
            by (simp add: take_add)
          have 1: "lazyToSep (take (a + b) ds @ t) = Some a"
            unfolding t1 using lazyToSep_prefix [OF Some, of "take b (drop a ds) @ t"] by simp
          have "drop a (take (a + b) ds @ t) = take b (drop a ds) @ t"
            unfolding t1 using pa [of "[]"] by simp
          then have 2: "lazyToSep (drop a (take (a + b) ds @ t)) = Some b"
            using pb [of t] by simp
          have "length (drop a ds) \<ge> b" using pb [of "[]"] by simp
          moreover have "a \<le> length ds" using pa [of "[]"] by simp
          ultimately have "a + b \<le> length ds" by simp
          then show ?thesis
            using c d 1 2 unfolding s cs n
            by (simp add: uncRoot_def)
        qed
      qed
    qed
  qed
qed

lemma isLetter_not_sep: "isLetter c \<Longrightarrow> \<not> isSep c"
  by (auto simp: char_eval)

lemma isWordChar_not_sep: "isWordChar c \<Longrightarrow> \<not> isSep c \<and> c \<noteq> colon"
  by (auto simp: char_eval)

lemma driveRoot_prefix:
  assumes "driveRoot s = Some n"
  shows "n \<le> length s \<and> uncRoot (take n s @ t) = None
    \<and> (\<exists>m\<ge>n. driveRoot (take n s @ t) = Some m)"
proof -
  obtain c rest where s: "s = c # colon # rest" and c: "isLetter c"
    using assms by (auto simp: driveRoot_def split: list.splits if_splits)
  have nc: "\<not> isSep c" by (rule isLetter_not_sep [OF c])
  show ?thesis
  proof (cases rest)
    case Nil
    then have "n = 2" using assms c unfolding s by (simp add: driveRoot_def)
    then show ?thesis
      using c nc unfolding s Nil
      by (cases t) (auto simp: driveRoot_def uncRoot_def)
  next
    case (Cons e rest')
    show ?thesis
    proof (cases "isSep e")
      case True
      then have "n = 3" using assms c unfolding s Cons by (simp add: driveRoot_def)
      then show ?thesis
        using c nc True unfolding s Cons by (simp add: driveRoot_def uncRoot_def)
    next
      case False
      then have "n = 2" using assms c unfolding s Cons by (simp add: driveRoot_def)
      then show ?thesis
        using c nc unfolding s Cons
        by (cases t) (auto simp: driveRoot_def uncRoot_def)
    qed
  qed
qed

lemma takeWhile_word_colon:
  "takeWhile isWordChar (takeWhile isWordChar s @ colon # x) = takeWhile isWordChar s"
  "dropWhile isWordChar (takeWhile isWordChar s @ colon # x) = colon # x"
proof -
  have c: "\<not> isWordChar colon" by (simp add: char_eval)
  have a: "\<forall>c\<in>set (takeWhile isWordChar s). isWordChar c"
    by (meson set_takeWhileD)
  show "takeWhile isWordChar (takeWhile isWordChar s @ colon # x) = takeWhile isWordChar s"
    using a c by (simp add: takeWhile_append2 del: takeWhile_append)
  show "dropWhile isWordChar (takeWhile isWordChar s @ colon # x) = colon # x"
    using a c by (simp add: dropWhile_append3)
qed

lemma urlRoot_prefix:
  assumes d: "driveRoot s = None" and u: "urlRoot s = Some n"
  shows "n \<le> length s \<and> uncRoot (take n s @ t) = None \<and> driveRoot (take n s @ t) = None
    \<and> (\<exists>m\<ge>n. urlRoot (take n s @ t) = Some m)"
proof -
  define w where "w = takeWhile isWordChar s"
  define h where "h rest = takeWhile (\<lambda>x. \<not> isSep x) rest" for rest :: jsstring
  define tl' where "tl' rest = dropWhile (\<lambda>x. \<not> isSep x) rest" for rest :: jsstring
  obtain rest where r: "dropWhile isWordChar s = colon # slash # slash # rest"
    and wne: "w \<noteq> []"
    and n: "n = length w + 3 + length (h rest) + (if tl' rest = [] then 0 else 1)"
    using u unfolding urlRoot_def Let_def w_def h_def tl'_def
    by (auto split: list.splits if_splits simp del: dropWhile_eq_Nil_conv takeWhile_eq_Nil_iff)
  have s: "s = w @ colon # slash # slash # rest"
    unfolding w_def r [symmetric] by simp
  have rest: "rest = h rest @ tl' rest" unfolding h_def tl'_def by simp
  define k where "k = length (h rest) + (if tl' rest = [] then 0 else 1)"
  have kl: "k \<le> length rest"
  proof -
    have "length rest = length (h rest) + length (tl' rest)"
      by (subst rest) simp
    then show ?thesis unfolding k_def by (cases "tl' rest") auto
  qed
  have nk: "n = length w + 3 + k" unfolding n k_def by simp
  have nl: "n \<le> length s" unfolding nk using kl by (subst s) simp
  have tk: "take n s = w @ colon # slash # slash # take k rest"
    unfolding nk by (subst s) (simp add: numeral_3_eq_3)
  define q where "q = take n s @ t"
  have q: "q = w @ colon # slash # slash # (take k rest @ t)"
    unfolding q_def tk by simp
  have hw: "isWordChar (hd w)"
  proof -
    have "hd w \<in> set w" using wne by simp
    then show ?thesis unfolding w_def by (meson set_takeWhileD)
  qed
  have 1: "uncRoot q = None"
    using wne hw isWordChar_not_sep [of "hd w"] unfolding q
    by (intro uncRoot_None) (simp add: hd_append)
  have 2: "driveRoot q = None"
  proof (cases w)
    case Nil
    then show ?thesis using wne by simp
  next
    case w1: (Cons a w')
    show ?thesis
    proof (cases w')
      case Nil
      have "\<not> isLetter a"
        using d by (subst (asm) s) (simp add: w1 Nil driveRoot_def split: if_splits)
      then show ?thesis unfolding q w1 Nil by (simp add: driveRoot_def)
    next
      case (Cons b w'')
      have "b \<in> set w" unfolding w1 Cons by simp
      then have "isWordChar b" unfolding w_def by (meson set_takeWhileD)
      then have "b \<noteq> colon" using isWordChar_not_sep by blast
      then show ?thesis unfolding q w1 Cons by (simp add: driveRoot_def)
    qed
  qed
  have tw: "takeWhile isWordChar q = w" "dropWhile isWordChar q = colon # slash # slash # (take k rest @ t)"
    unfolding q w_def by (rule takeWhile_word_colon)+
  have hh: "\<forall>c\<in>set (h rest). \<not> isSep c"
    unfolding h_def using set_takeWhileD [of _ "\<lambda>x. \<not> isSep x" rest] by blast
  have 3: "length (h rest) + (if tl' rest = [] then 0 else 1)
      \<le> length (h (take k rest @ t)) + (if tl' (take k rest @ t) = [] then 0 else 1)"
  proof (cases "tl' rest")
    case Nil
    then have "rest = h rest" using rest by simp
    then have "take k rest = h rest" unfolding k_def using Nil by simp
    then have "h (take k rest @ t) = h rest @ h t"
      using hh unfolding h_def by (simp add: takeWhile_append2 del: takeWhile_append)
    then show ?thesis using Nil by simp
  next
    case (Cons e tail)
    have e: "isSep e"
      using hd_dropWhile [of "\<lambda>x. \<not> isSep x" rest] Cons unfolding tl'_def by simp
    have re: "rest = h rest @ e # tail" using rest Cons by simp
    have "take k rest = h rest @ [e]"
      unfolding k_def using Cons by (subst re) simp
    then have tk: "take k rest @ t = h rest @ e # t" by simp
    have "h (take k rest @ t) = h rest"
      unfolding tk using hh e unfolding h_def
      by (simp add: takeWhile_append2 del: takeWhile_append)
    moreover have "tl' (take k rest @ t) \<noteq> []"
      unfolding tk tl'_def using e by (simp del: dropWhile_append add: dropWhile_eq_Nil_conv)
    ultimately show ?thesis by simp
  qed
  have "urlRoot q = Some (length w + 3 + length (h (take k rest @ t))
      + (if tl' (take k rest @ t) = [] then 0 else 1))"
    unfolding urlRoot_def Let_def tw h_def tl'_def using wne by simp
  then have "\<exists>m\<ge>n. urlRoot q = Some m"
    using 3 unfolding n by simp
  then show ?thesis
    using nl 1 2 unfolding q_def by simp
qed

lemma rootRegExp_prefix:
  assumes "rootRegExp s = Some n"
  shows "n \<le> length s \<and> (\<exists>m\<ge>n. rootRegExp (take n s @ t) = Some m)"
proof (cases "uncRoot s")
  case (Some a)
  then have "a = n" using assms by (simp add: rootRegExp_def)
  then show ?thesis
    using uncRoot_prefix [OF Some, of t] by (auto simp: rootRegExp_def)
next
  case unc: None
  show ?thesis
  proof (cases "driveRoot s")
    case (Some a)
    then have "a = n" using assms unc by (simp add: rootRegExp_def)
    then show ?thesis
      using driveRoot_prefix [OF Some, of t] by (auto simp: rootRegExp_def)
  next
    case None
    then have "urlRoot s = Some n" using assms unc by (simp add: rootRegExp_def)
    then show ?thesis
      using urlRoot_prefix [OF None, of n t] by (auto simp: rootRegExp_def)
  qed
qed

lemma getRootLength_le: "getRootLength s \<le> length s"
  using rootRegExp_prefix [of s _ "[]"]
  by (cases "rootRegExp s") (auto simp: getRootLength_def)

lemma getRootLength_prefix:
  "getRootLength s \<le> getRootLength (take (getRootLength s) s @ t)"
proof (cases "rootRegExp s")
  case None
  then show ?thesis by (simp add: getRootLength_def)
next
  case (Some n)
  then obtain m where "m \<ge> n" "rootRegExp (take n s @ t) = Some m"
    using rootRegExp_prefix [OF Some, of t] by blast
  then show ?thesis using Some by (simp add: getRootLength_def)
qed

section \<open>parse and format of a normalized path\<close>


lemma normalizeSlashes_shape:
  "backslash \<notin> set (normalizeSlashes s) \<and> \<not> spaceBySlash (normalizeSlashes s)
    \<and> trimmed (normalizeSlashes s)"
  using set_trim [of "replaceSeparators s"] replaceSeparators_no_backslash [of s]
    spaceBySlash_trim [OF replaceSeparators_no_spaceBySlash, of s] trimmed_trim
  by (auto simp: normalizeSlashes_def)

lemma split_trim_join_drop:
  assumes "\<not> spaceBySlash t" and "\<not> doubleSlash t" and "trimmed t"
    and "t = [] \<or> last t \<noteq> slash"
    and "drop k t = [] \<or> \<not> isSpace (hd (drop k t))"
  shows "joinSlash (map trim (let rest = splitSlashes (drop k t) in
      if rest \<noteq> [] \<and> last rest = [] then butlast rest else rest)) = drop k t"
proof (rule split_trim_join)
  show "\<not> doubleSlash (drop k t)" by (rule doubleSlash_drop [OF assms(2)])
  show "\<not> spaceBySlash (drop k t)" by (rule spaceBySlash_drop [OF assms(1)])
  show "trimmed (drop k t)"
  proof (cases "drop k t = []")
    case True
    then show ?thesis by (simp add: trimmed_def)
  next
    case False
    then have "k < length t" by simp
    then have "last (drop k t) = last t" by (rule last_drop)
    moreover have "t \<noteq> []" using False by auto
    ultimately show ?thesis
      using assms(3,5) False by (simp add: trimmed_def)
  qed
  show "drop k t = [] \<or> last (drop k t) \<noteq> slash"
  proof (cases "drop k t = []")
    case True
    then show ?thesis by simp
  next
    case False
    then have "k < length t" by simp
    then have "last (drop k t) = last t" by (rule last_drop)
    moreover have "t \<noteq> []" using False by auto
    ultimately show ?thesis using assms(4) by simp
  qed
qed

lemma parse_format_suffix:
  assumes q: "q = pre @ t" and pre: "length pre \<le> getRootLength q"
    and t: "\<not> spaceBySlash t" "\<not> doubleSlash t" "trimmed t" "t = [] \<or> last t \<noteq> slash"
    and sp: "\<not> (getRootLength q < length q \<and> isSpace (q ! getRootLength q))"
  shows "format (parse q) = q"
proof -
  define r where "r = getRootLength q"
  define k where "k = r - length pre"
  have d: "drop r q = drop k t"
    unfolding q k_def using pre unfolding r_def [symmetric] by simp
  have h: "drop k t = [] \<or> \<not> isSpace (hd (drop k t))"
  proof (cases "drop r q = []")
    case True
    then show ?thesis using d by simp
  next
    case False
    then have "r < length q" by simp
    then have "hd (drop r q) = q ! r" by (rule hd_drop_conv_nth)
    then show ?thesis using sp \<open>r < length q\<close> unfolding r_def [symmetric] d by simp
  qed
  have "joinSlash (map trim (let rest = splitSlashes (drop k t) in
      if rest \<noteq> [] \<and> last rest = [] then butlast rest else rest)) = drop k t"
    by (rule split_trim_join_drop [OF t h])
  then have "format (parse q) = take r q @ drop r q"
    unfolding parse_def format_def r_def [symmetric] d Let_def by simp
  then show ?thesis by simp
qed

text \<open>
  C4, as the claim states it, fails: \<open>normalize\<close> puts a trailing separator back and
  \<open>parse\<close> drops it again.
\<close>

theorem parse_format_counterexample:
  "normalize_path (str ''a/b/'') = str ''a/b/''
   \<and> format (parse (normalize_path (str ''a/b/''))) = str ''a/b''
   \<and> format (parse (normalize_path (str ''a/b/''))) \<noteq> normalize_path (str ''a/b/'')"
  by (simp add: path_eval)

text \<open>
  One more case is left out of the amended claim: when the reduction removes the start of
  a relative path, what is left can begin like a drive root followed by white space, and
  \<open>parse\<close> trims the component after that root.
\<close>

lemma parse_format_drive_space:
  "normalize_path (str ''./c: a'') = str ''c: a''
   \<and> format (parse (normalize_path (str ''./c: a''))) = str ''c:a''"
  by (simp add: path_eval)

text \<open>
  C4, amended. If \<open>normalize\<close> puts no trailing separator back (the path does not end in
  a separator, or the reduction leaves the root alone), and the code unit right after the
  root of the normal form is not white space, then \<open>parse\<close> and \<open>format\<close> give the normal
  form back.
\<close>

theorem parse_format_normalized:
  assumes "\<not> (hasTrailingSeperator path
          \<and> length (reduce (parse (normalizeSlashes path))) > 1)"
    and "\<not> (getRootLength (normalize_path path) < length (normalize_path path)
          \<and> isSpace (normalize_path path ! getRootLength (normalize_path path)))"
  shows "format (parse (normalize_path path)) = normalize_path path"
proof -
  define s where "s = normalizeSlashes path"
  define root where "root = take (getRootLength s) s"
  have sh: "backslash \<notin> set s" "\<not> spaceBySlash s" "trimmed s"
    unfolding s_def using normalizeSlashes_shape [of path] by simp_all
  obtain comps where p: "parse s = root # comps" and g: "goodItems comps"
    using parse_shape [OF sh] unfolding root_def by blast
  have n: "normalize_path path = format (reduceLoop [root] comps)"
    using assms(1) unfolding normalize_path_def Let_def s_def [symmetric] p by auto
  have "goodItems ([] @ comps)" using g by simp
  then consider ys where "reduceLoop [root] comps = root # ys" "goodItems ys"
    | "\<forall>x\<in>set (reduceLoop [root] comps). isName x"
    using reduceLoop_shape [of "[]" comps root] by blast
  then show ?thesis
  proof cases
    case 1
    have q: "normalize_path path = root @ joinSlash ys"
      unfolding n 1(1) by (simp add: format_def)
    have "getRootLength s \<le> getRootLength (take (getRootLength s) s @ joinSlash ys)"
      by (rule getRootLength_prefix)
    moreover have "length root = getRootLength s"
      unfolding root_def using getRootLength_le [of s] by simp
    ultimately have l: "length root \<le> getRootLength (normalize_path path)"
      unfolding q root_def by simp
    note js = joinSlash_good_shape [OF 1(2)]
    show ?thesis
      by (rule parse_format_suffix [OF q l _ _ _ _ assms(2)]) (use js in simp_all)
  next
    case 2
    note fs = format_names_shape [OF 2]
    have q: "normalize_path path = [] @ normalize_path path" by simp
    show ?thesis
      by (rule parse_format_suffix [OF q _ _ _ _ _ assms(2)]) (use fs n in simp_all)
  qed
qed

text \<open>On \<open>"a/./b/../c"\<close>, on \<open>" c:x//y/../z "\<close> and on the root \<open>"/"\<close>.\<close>

theorem parse_format_normalized_witness:
  "normalize_path (str ''a/./b/../c'') = str ''a/c''
   \<and> format (parse (str ''a/c'')) = str ''a/c''
   \<and> normalize_path (str '' c:x//y/../z '') = str ''c:x/z''
   \<and> format (parse (str ''c:x/z'')) = str ''c:x/z''
   \<and> normalize_path (str ''/'') = str ''/''
   \<and> format (parse (str ''/'')) = str ''/''"
proof -
  have e: "normalize_path (str ''a/./b/../c'') = str ''a/c''"
      "normalize_path (str '' c:x//y/../z '') = str ''c:x/z''"
      "normalize_path (str ''/'') = str ''/''"
    by (simp_all add: path_eval)
  have h: "\<not> hasTrailingSeperator (str ''a/./b/../c'')"
      "\<not> hasTrailingSeperator (str '' c:x//y/../z '')"
      "\<not> length (reduce (parse (normalizeSlashes (str ''/'')))) > 1"
    by (simp_all add: path_eval)
  have r: "getRootLength (str ''a/c'') = 0" "getRootLength (str ''c:x/z'') = 2"
      "getRootLength (str ''/'') = 1"
    by (simp_all add: path_eval)
  have s: "\<not> (0 < length (str ''a/c'') \<and> isSpace (str ''a/c'' ! 0))"
      "\<not> (2 < length (str ''c:x/z'') \<and> isSpace (str ''c:x/z'' ! 2))"
      "\<not> (1 < length (str ''/'') \<and> isSpace (str ''/'' ! 1))"
    by (simp_all add: char_eval)
  show ?thesis
    using parse_format_normalized [of "str ''a/./b/../c''"]
      parse_format_normalized [of "str '' c:x//y/../z ''"]
      parse_format_normalized [of "str ''/''"]
    unfolding e r using h s by simp
qed

section \<open>Reduction that keeps the root\<close>

lemma parse_Cons: "parse path = pathRoot path # tl (parse path)"
  by (simp add: parse_def pathRoot_def Let_def)

lemma keepsRoot_reduceLoop:
  assumes "keepsRoot (length ys) cs"
    and "\<forall>n\<in>set ys. n \<noteq> str ''.'' \<and> n \<noteq> str ''..''"
  shows "\<exists>fs. reduceLoop (r # ys) cs = r # fs
    \<and> (\<forall>n\<in>set fs. n \<noteq> str ''.'' \<and> n \<noteq> str ''..'') \<and> set fs \<subseteq> set ys \<union> set cs"
  using assms
proof (induction cs arbitrary: ys)
  case Nil
  then show ?case by simp
next
  case (Cons c cs)
  show ?case
  proof (cases "c = str ''.''")
    case True
    then have "keepsRoot (length ys) cs" using Cons.prems(1) by simp
    then obtain fs where "reduceLoop (r # ys) cs = r # fs"
        "\<forall>n\<in>set fs. n \<noteq> str ''.'' \<and> n \<noteq> str ''..''" "set fs \<subseteq> set ys \<union> set cs"
      using Cons.IH [of ys] Cons.prems(2) by blast
    then show ?thesis using True by auto
  next
    case dot: False
    show ?thesis
    proof (cases "c = str ''..''")
      case True
      then have d: "length ys > 0" and k: "keepsRoot (length (butlast ys)) cs"
        using Cons.prems(1) dot by simp_all
      have ne: "ys \<noteq> []" using d by simp
      then have "last ys \<in> set ys" by simp
      then have l: "last (r # ys) \<noteq> str ''..''" using Cons.prems(2) ne by auto
      have b: "\<forall>n\<in>set (butlast ys). n \<noteq> str ''.'' \<and> n \<noteq> str ''..''"
        using Cons.prems(2) by (auto dest: in_set_butlastD)
      obtain fs where fs: "reduceLoop (r # butlast ys) cs = r # fs"
          "\<forall>n\<in>set fs. n \<noteq> str ''.'' \<and> n \<noteq> str ''..''"
          "set fs \<subseteq> set (butlast ys) \<union> set cs"
        using Cons.IH [OF k b] by blast
      have "reduceLoop (r # ys) (c # cs) = r # fs"
        using True dot l ne fs(1) by simp
      moreover have "set fs \<subseteq> set ys \<union> set (c # cs)"
        using fs(3) by (auto dest: in_set_butlastD)
      ultimately show ?thesis using fs(2) by blast
    next
      case False
      then have k: "keepsRoot (length (ys @ [c])) cs"
        using Cons.prems(1) dot by simp
      have b: "\<forall>n\<in>set (ys @ [c]). n \<noteq> str ''.'' \<and> n \<noteq> str ''..''"
        using Cons.prems(2) dot False by simp
      obtain fs where fs: "reduceLoop (r # ys @ [c]) cs = r # fs"
          "\<forall>n\<in>set fs. n \<noteq> str ''.'' \<and> n \<noteq> str ''..''"
          "set fs \<subseteq> set (ys @ [c]) \<union> set cs"
        using Cons.IH [OF k b] by auto
      have "reduceLoop (r # ys) (c # cs) = r # fs"
        using False dot fs(1) by simp
      moreover have "set fs \<subseteq> set ys \<union> set (c # cs)"
        using fs(3) by auto
      ultimately show ?thesis using fs(2) by blast
    qed
  qed
qed

lemma keepsRoot_reduce:
  assumes "keepsRoot 0 (tl (parse path))"
  shows "reduce (parse path) = pathRoot path # tl (reduce (parse path))"
    and "\<forall>n\<in>set (tl (reduce (parse path))). n \<noteq> str ''.'' \<and> n \<noteq> str ''..''"
    and "set (tl (reduce (parse path))) \<subseteq> set (tl (parse path))"
proof -
  obtain fs where fs: "reduceLoop [pathRoot path] (tl (parse path)) = pathRoot path # fs"
      "\<forall>n\<in>set fs. n \<noteq> str ''.'' \<and> n \<noteq> str ''..''" "set fs \<subseteq> set [] \<union> set (tl (parse path))"
    using keepsRoot_reduceLoop [of "[]" "tl (parse path)" "pathRoot path"] assms by auto
  have r: "reduce (parse path) = pathRoot path # fs"
    by (subst parse_Cons) (simp add: fs(1))
  show "reduce (parse path) = pathRoot path # tl (reduce (parse path))"
    and "\<forall>n\<in>set (tl (reduce (parse path))). n \<noteq> str ''.'' \<and> n \<noteq> str ''..''"
    and "set (tl (reduce (parse path))) \<subseteq> set (tl (parse path))"
    using fs(2,3) unfolding r by simp_all
qed

lemma isAbsolute_root_append:
  assumes "isAbsolute path"
  shows "isAbsolute (pathRoot path @ x)"
proof -
  obtain n where n: "rootRegExp path = Some n"
    using assms by (auto simp: isAbsolute_def)
  then have g: "getRootLength path = n" by (simp add: getRootLength_def)
  obtain m where "rootRegExp (take n path @ x) = Some m"
    using rootRegExp_prefix [OF n, of x] by blast
  then show ?thesis by (simp add: isAbsolute_def pathRoot_def g)
qed

section \<open>relative: where the component arrays diverge\<close>

text \<open>
  C7, as the claim states it, fails. In \<open>"/a"\<close> and \<open>"/b"\<close> index 0 of the component arrays
  holds the root \<open>"/"\<close> of both: the paths diverge at their first names and the result is
  \<open>"../b"\<close>. Where the roots differ, as in \<open>"/a"\<close> and \<open>"c:/x/../y"\<close>, the result is \<open>to\<close> after
  \<open>parse\<close>, \<open>reduce\<close> and \<open>format\<close>, not \<open>to\<close> as it was given.
\<close>

theorem relative_first_component_counterexample:
  "isAbsolute (str ''/a'') \<and> isAbsolute (str ''/b'') \<and> isAbsolute (str ''c:/x/../y'')
   \<and> relative noIntl (str ''/a'') (str ''/b'') False = Inr (str ''../b'')
   \<and> relative noIntl (str ''/a'') (str ''/b'') False \<noteq> Inr (str ''/b'')
   \<and> compareStrings noIntl (Some (reduce (parse (str ''/a'')) ! 0))
        (Some (reduce (parse (str ''c:/x/../y'')) ! 0)) False \<noteq> 0
   \<and> relative noIntl (str ''/a'') (str ''c:/x/../y'') False = Inr (str ''c:/y'')
   \<and> relative noIntl (str ''/a'') (str ''c:/x/../y'') False \<noteq> Inr (str ''c:/x/../y'')"
  by (simp add: relative_eval)

lemma commonStart_one:
  assumes "compareStrings env (Some rf) (Some rt) ic = 0"
    and "fs = [] \<or> ts = [] \<or> compareStrings env (Some (hd fs)) (Some (hd ts)) ic \<noteq> 0"
  shows "commonStart env ic (rf # fs) (rt # ts) 0 = 1"
proof -
  have "commonStart env ic (rf # fs) (rt # ts) 0 = commonStart env ic (rf # fs) (rt # ts) 1"
    using assms(1) by (subst commonStart.simps) simp
  also have "\<dots> = 1"
    using assms(2) by (subst commonStart.simps) (cases fs; cases ts; auto)
  finally show ?thesis .
qed

text \<open>
  C7, amended. Let \<open>from\<close> and \<open>to\<close> be rooted and let no \<open>..\<close> climb past the root of either,
  so that the reduced component arrays are the root of \<open>from\<close> followed by names \<open>fs\<close> and
  the root of \<open>to\<close> followed by names \<open>ts\<close>. If the two roots compare different, the arrays
  diverge at index 0 and \<open>relative\<close> returns \<open>format(reduce(parse(to)))\<close>: the root of \<open>to\<close>
  followed by the names \<open>ts\<close> joined by \<open>/\<close>, a rooted path. If the roots compare equal and
  the first names compare different, or one of the paths has no name, \<open>relative\<close> returns
  one \<open>..\<close> for every name of \<open>fs\<close>, followed by the names \<open>ts\<close>, joined by \<open>/\<close>.
\<close>

theorem relative_roots_differ:
  assumes "isAbsolute from" and "isAbsolute to"
    and "keepsRoot 0 (tl (parse from))" and "keepsRoot 0 (tl (parse to))"
    and "fs = tl (reduce (parse from))" and "ts = tl (reduce (parse to))"
  shows "reduce (parse from) = pathRoot from # fs \<and> reduce (parse to) = pathRoot to # ts
    \<and> (compareStrings env (Some (pathRoot from)) (Some (pathRoot to)) ignoreCase \<noteq> 0
        \<longrightarrow> relative env from to ignoreCase = Inr (pathRoot to @ joinSlash ts)
          \<and> isAbsolute (pathRoot to @ joinSlash ts))
    \<and> (compareStrings env (Some (pathRoot from)) (Some (pathRoot to)) ignoreCase = 0
        \<and> (fs = [] \<or> ts = [] \<or> compareStrings env (Some (hd fs)) (Some (hd ts)) ignoreCase \<noteq> 0)
        \<longrightarrow> relative env from to ignoreCase
          = Inr (joinSlash (replicate (length fs) (str ''..'') @ ts)))"
proof -
  have F: "reduce (parse from) = pathRoot from # fs"
    using keepsRoot_reduce(1) [OF assms(3)] assms(5) by simp
  have T: "reduce (parse to) = pathRoot to # ts"
    using keepsRoot_reduce(1) [OF assms(4)] assms(6) by simp
  have 1: "relative env from to ignoreCase = Inr (pathRoot to @ joinSlash ts)"
    if "compareStrings env (Some (pathRoot from)) (Some (pathRoot to)) ignoreCase \<noteq> 0"
  proof -
    have "commonStart env ignoreCase (pathRoot from # fs) (pathRoot to # ts) 0 = 0"
      using that by (simp add: commonStart_zero)
    then show ?thesis
      using assms(1,2) by (simp add: relative_def F T Let_def format_def)
  qed
  have 2: "relative env from to ignoreCase
      = Inr (joinSlash (replicate (length fs) (str ''..'') @ ts))"
    if "compareStrings env (Some (pathRoot from)) (Some (pathRoot to)) ignoreCase = 0"
      and "fs = [] \<or> ts = [] \<or> compareStrings env (Some (hd fs)) (Some (hd ts)) ignoreCase \<noteq> 0"
  proof -
    have "commonStart env ignoreCase (pathRoot from # fs) (pathRoot to # ts) 0 = 1"
      using that by (rule commonStart_one)
    then show ?thesis
      using assms(1,2) by (simp add: relative_def F T Let_def format_def)
  qed
  have 3: "isAbsolute (pathRoot to @ joinSlash ts)"
    by (rule isAbsolute_root_append [OF assms(2)])
  show ?thesis using F T 1 2 3 by blast
qed

text \<open>
  \<open>"/a"\<close> and \<open>"c:/x/../y"\<close> have different roots; \<open>"/a/b"\<close> and \<open>"/c/./d"\<close> have the same
  root and different first names.
\<close>

theorem relative_roots_differ_witness:
  "relative noIntl (str ''/a'') (str ''c:/x/../y'') False = Inr (str ''c:/y'')
   \<and> isAbsolute (str ''c:/y'')
   \<and> relative noIntl (str ''/a/b'') (str ''/c/./d'') False = Inr (str ''../../c/d'')"
proof -
  have a: "isAbsolute (str ''/a'')" "isAbsolute (str ''c:/x/../y'')"
      "isAbsolute (str ''/a/b'')" "isAbsolute (str ''/c/./d'')"
    by (simp_all add: path_eval)
  have p: "tl (parse (str ''/a'')) = [str ''a'']"
      "tl (parse (str ''c:/x/../y'')) = [str ''x'', str ''..'', str ''y'']"
      "tl (parse (str ''/a/b'')) = [str ''a'', str ''b'']"
      "tl (parse (str ''/c/./d'')) = [str ''c'', str ''.'', str ''d'']"
    by (simp_all add: path_eval)
  have k: "keepsRoot 0 (tl (parse (str ''/a'')))" "keepsRoot 0 (tl (parse (str ''c:/x/../y'')))"
      "keepsRoot 0 (tl (parse (str ''/a/b'')))" "keepsRoot 0 (tl (parse (str ''/c/./d'')))"
    unfolding p by (simp_all add: char_eval)
  have r: "tl (reduce (parse (str ''/a''))) = [str ''a'']"
      "tl (reduce (parse (str ''c:/x/../y''))) = [str ''y'']"
      "tl (reduce (parse (str ''/a/b''))) = [str ''a'', str ''b'']"
      "tl (reduce (parse (str ''/c/./d''))) = [str ''c'', str ''d'']"
    by (simp_all add: path_eval)
  have o: "pathRoot (str ''/a'') = str ''/''" "pathRoot (str ''c:/x/../y'') = str ''c:/''"
      "pathRoot (str ''/a/b'') = str ''/''" "pathRoot (str ''/c/./d'') = str ''/''"
    by (simp_all add: pathRoot_def path_eval)
  have c: "compareStrings noIntl (Some (str ''/'')) (Some (str ''c:/'')) False \<noteq> 0"
      "compareStrings noIntl (Some (str ''/'')) (Some (str ''/'')) False = 0"
      "compareStrings noIntl (Some (hd [str ''a'', str ''b''])) (Some (hd [str ''c'', str ''d''])) False \<noteq> 0"
    by (simp_all add: relative_eval)
  have j: "str ''c:/'' @ joinSlash [str ''y''] = str ''c:/y''"
      "joinSlash (replicate (length [str ''a'', str ''b'']) (str ''..'') @ [str ''c'', str ''d''])
        = str ''../../c/d''"
    by (simp_all add: char_eval)
  show ?thesis
    using relative_roots_differ [OF a(1,2) k(1,2) r(1) [symmetric] r(2) [symmetric], of noIntl False]
      relative_roots_differ [OF a(3,4) k(3,4) r(3) [symmetric] r(4) [symmetric], of noIntl False]
    unfolding o using c unfolding j by simp
qed

section \<open>Where a root ends\<close>









section \<open>The components of a path that combine built\<close>
















section \<open>resolve after relative: the claim\<close>











text \<open>
  Each condition of the amended claim is needed: where one of them fails, the others
  holding, the path that \<open>resolve\<close> returns is not \<open>normalize(to)\<close>.
\<close>

lemma resolve_relative_other_failures:
  "resolveRelative noIntl (str ''c:/'') (str ''/x/a'' @ backslash # str ''b/..'') False = Inr (str ''/x'')
   \<and> normalize_path (str ''/x/a'' @ backslash # str ''b/..'') = str ''/x/a''
   \<and> resolveRelative noIntl (str ''/x'' @ backslash # str ''y'') (str ''/z'') False
       = Inr (str ''/x/z'')
   \<and> normalize_path (str ''/z'') = str ''/z''
   \<and> resolveRelative noIntl (str ''/a'') (str ''/../b'') False = Inr (str ''/a/b'')
   \<and> normalize_path (str ''/../b'') = str ''b''
   \<and> resolveRelative noIntl (str ''/a/'') (str ''/a'') False = Inr (str ''/a/'')
   \<and> normalize_path (str ''/a'') = str ''/a''
   \<and> resolveRelative noIntl (str ''/A/x'') (str ''/a/y'') True = Inr (str ''/A/y'')
   \<and> normalize_path (str ''/a/y'') = str ''/a/y''
   \<and> resolveRelative noIntl (str ''c:/x'') (str ''c://a'') False = Inr (str ''c:/a'')
   \<and> normalize_path (str ''c://a'') = str ''c://a''
   \<and> resolveRelative noIntl (str ''/a'') (str ''/a/c:/x'') False = Inr (str ''c:/x'')
   \<and> normalize_path (str ''/a/c:/x'') = str ''/a/c:/x''
   \<and> resolveRelative noIntl (str ''//a'') (str ''//b'') False = Inr (str ''//a/../b'')
   \<and> normalize_path (str ''//b'') = str ''//b''
   \<and> resolveRelative noIntl (str ''c:'') (str ''c:b'') False = Inr (str ''c:/b'')
   \<and> normalize_path (str ''c:b'') = str ''c:b''"
  by (simp add: relative_eval)

end
